theory Spec2Isabelle
  imports Complex_Main "HOL-Library.Monad_Syntax"
begin

section \<open>JavaScript numbers\<close>

text \<open>
  A JavaScript number is modelled as an exact real, or one of the three non-finite values
  that the arithmetic of the source can produce (a division by a zero duration, the
  \<open>parseInt\<close> of a string without a leading digit). Rounding to binary64, overflow of
  finite results and the sign of zero are not modelled.
\<close>

datatype jsnum = Fin real | PInf | NInf | NaN

fun js_neg :: "jsnum \<Rightarrow> jsnum" where
  "js_neg (Fin x) = Fin (- x)"
| "js_neg PInf = NInf"
| "js_neg NInf = PInf"
| "js_neg NaN = NaN"

fun js_add :: "jsnum \<Rightarrow> jsnum \<Rightarrow> jsnum" where
  "js_add (Fin x) (Fin y) = Fin (x + y)"
| "js_add NaN _ = NaN"
| "js_add _ NaN = NaN"
| "js_add PInf NInf = NaN"
| "js_add NInf PInf = NaN"
| "js_add PInf _ = PInf"
| "js_add _ PInf = PInf"
| "js_add NInf _ = NInf"
| "js_add _ NInf = NInf"

definition js_sub :: "jsnum \<Rightarrow> jsnum \<Rightarrow> jsnum" where
  "js_sub a b = js_add a (js_neg b)"

fun js_sign :: "jsnum \<Rightarrow> int" where
  "js_sign (Fin x) = (if x < 0 then - 1 else if x = 0 then 0 else 1)"
| "js_sign PInf = 1"
| "js_sign NInf = - 1"
| "js_sign NaN = 0"

definition signed_inf :: "int \<Rightarrow> jsnum" where
  "signed_inf s = (if s = 0 then NaN else if 0 < s then PInf else NInf)"

fun js_mul :: "jsnum \<Rightarrow> jsnum \<Rightarrow> jsnum" where
  "js_mul (Fin x) (Fin y) = Fin (x * y)"
| "js_mul NaN _ = NaN"
| "js_mul _ NaN = NaN"
| "js_mul a b = signed_inf (js_sign a * js_sign b)"

fun js_div :: "jsnum \<Rightarrow> jsnum \<Rightarrow> jsnum" where
  "js_div (Fin x) (Fin y) = (if y = 0 then signed_inf (js_sign (Fin x)) else Fin (x / y))"
| "js_div NaN _ = NaN"
| "js_div _ NaN = NaN"
| "js_div (Fin x) _ = Fin 0"
| "js_div a (Fin y) = signed_inf (js_sign a * (if y < 0 then - 1 else 1))"
| "js_div _ _ = NaN"

text \<open>\<open>a < b\<close> of the source: false as soon as one side is NaN.\<close>

fun js_lt :: "jsnum \<Rightarrow> jsnum \<Rightarrow> bool" where
  "js_lt (Fin x) (Fin y) = (x < y)"
| "js_lt NaN _ = False"
| "js_lt _ NaN = False"
| "js_lt _ NInf = False"
| "js_lt NInf _ = True"
| "js_lt PInf _ = False"
| "js_lt _ PInf = True"

text \<open>\<open>Math.min(a, b)\<close>: NaN if either argument is.\<close>

definition js_min :: "jsnum \<Rightarrow> jsnum \<Rightarrow> jsnum" where
  "js_min a b = (if a = NaN \<or> b = NaN then NaN else if js_lt b a then b else a)"

text \<open>\<open>Math.round\<close>: the nearest integer, a tie going up.\<close>

fun js_round :: "jsnum \<Rightarrow> jsnum" where
  "js_round (Fin x) = Fin (of_int \<lfloor>x + 1 / 2\<rfloor>)"
| "js_round a = a"

section \<open>Characters, strings and the regular expressions of the source\<close>

text \<open>
  Strings are ASCII character lists. The regular expressions of the source are anchored
  at both ends and every repetition in them is followed by a character outside its class,
  so a greedy left-to-right scan accepts exactly what the expression accepts.
\<close>

definition is_digit :: "char \<Rightarrow> bool" where
  "is_digit c \<longleftrightarrow> c \<in> set ''0123456789''"

definition is_hex :: "char \<Rightarrow> bool" where
  "is_hex c \<longleftrightarrow> c \<in> set ''0123456789abcdefABCDEF''"

text \<open>The class \<open>\s\<close>, restricted to ASCII: space, tab, line feed, vertical tab, form feed, carriage return.\<close>

definition is_space :: "char \<Rightarrow> bool" where
  "is_space c \<longleftrightarrow> c \<in> {CHR '' '', CHR 0x09, CHR 0x0A, CHR 0x0B, CHR 0x0C, CHR 0x0D}"

definition is_lower :: "char \<Rightarrow> bool" where
  "is_lower c \<longleftrightarrow> c \<in> set ''abcdefghijklmnopqrstuvwxyz''"

definition is_upper :: "char \<Rightarrow> bool" where
  "is_upper c \<longleftrightarrow> c \<in> set ''ABCDEFGHIJKLMNOPQRSTUVWXYZ''"

definition digit_val :: "char \<Rightarrow> nat" where
  "digit_val c = of_char c - 48"

definition hex_val :: "char \<Rightarrow> nat" where
  "hex_val c = (if is_digit c then of_char c - 48
                else if is_lower c then of_char c - 87 else of_char c - 55)"

definition toLowerCase :: "string \<Rightarrow> string" where
  "toLowerCase s = map (\<lambda>c. if is_upper c then char_of (of_char c + (32::nat)) else c) s"

definition trim :: "string \<Rightarrow> string" where
  "trim s = rev (dropWhile is_space (rev (dropWhile is_space s)))"

definition substring :: "nat \<Rightarrow> nat \<Rightarrow> string \<Rightarrow> string" where
  "substring i j s = take (j - i) (drop i s)"

definition radix_val :: "nat \<Rightarrow> (char \<Rightarrow> nat) \<Rightarrow> string \<Rightarrow> nat" where
  "radix_val b v s = foldl (\<lambda>a c. b * a + v c) 0 s"

text \<open>
  \<open>parseInt(s)\<close> and \<open>parseInt(s, 16)\<close> on the strings the source passes: captures of the
  regular expressions, which carry no white space, sign or radix prefix. The value is
  that of the longest prefix of digits, and NaN when there is none.
\<close>

definition parseInt :: "string \<Rightarrow> jsnum" where
  "parseInt s = (case takeWhile is_digit s of
                   [] \<Rightarrow> NaN
                 | ds \<Rightarrow> Fin (of_nat (radix_val 10 digit_val ds)))"

definition parseInt16 :: "string \<Rightarrow> jsnum" where
  "parseInt16 s = (case takeWhile is_hex s of
                     [] \<Rightarrow> NaN
                   | ds \<Rightarrow> Fin (of_nat (radix_val 16 hex_val ds)))"

text \<open>A literal piece of an expression: the rest of the input after it.\<close>

definition lit :: "string \<Rightarrow> string \<Rightarrow> string option" where
  "lit p s = (if take (length p) s = p then Some (drop (length p) s) else None)"

text \<open>\<open>[class]+\<close>: the captured run and the rest.\<close>

definition many1 :: "(char \<Rightarrow> bool) \<Rightarrow> string \<Rightarrow> (string \<times> string) option" where
  "many1 P s = (case takeWhile P s of
                  [] \<Rightarrow> None
                | r \<Rightarrow> Some (r, dropWhile P s))"

text \<open>The end anchor.\<close>

definition at_end :: "string \<Rightarrow> 'a \<Rightarrow> 'a option" where
  "at_end s x = (if s = [] then Some x else None)"

text \<open>\<^verbatim>\<open>/^rgb\((\d+),\s*(\d+),\s*(\d+)\)$/\<close>\<close>

definition match_rgb :: "string \<Rightarrow> (string \<times> string \<times> string) option" where
  "match_rgb s0 = do {
     s \<leftarrow> lit ''rgb('' s0;
     (r, s) \<leftarrow> many1 is_digit s;
     s \<leftarrow> lit '','' s;
     (g, s) \<leftarrow> many1 is_digit (dropWhile is_space s);
     s \<leftarrow> lit '','' s;
     (b, s) \<leftarrow> many1 is_digit (dropWhile is_space s);
     s \<leftarrow> lit '')'' s;
     at_end s (r, g, b)
   }"

text \<open>\<^verbatim>\<open>/^rgba\((\d+),\s*(\d+),\s*(\d+),\s*([\d.]+)\)$/\<close>\<close>

definition match_rgba :: "string \<Rightarrow> (string \<times> string \<times> string \<times> string) option" where
  "match_rgba s0 = do {
     s \<leftarrow> lit ''rgba('' s0;
     (r, s) \<leftarrow> many1 is_digit s;
     s \<leftarrow> lit '','' s;
     (g, s) \<leftarrow> many1 is_digit (dropWhile is_space s);
     s \<leftarrow> lit '','' s;
     (b, s) \<leftarrow> many1 is_digit (dropWhile is_space s);
     s \<leftarrow> lit '','' s;
     (a, s) \<leftarrow> many1 (\<lambda>c. is_digit c \<or> c = CHR ''.'') (dropWhile is_space s);
     s \<leftarrow> lit '')'' s;
     at_end s (r, g, b, a)
   }"

text \<open>\<^verbatim>\<open>/^#([a-fA-F0-9]{3}){1,2}$/\<close>: the whole match, which is the input.\<close>

definition match_hex :: "string \<Rightarrow> string option" where
  "match_hex s0 = do {
     s \<leftarrow> lit ''#'' s0;
     if (length s = 3 \<or> length s = 6) \<and> list_all is_hex s then Some s0 else None
   }"

section \<open>The colour resolver\<close>

type_synonym rgba = "jsnum \<times> jsnum \<times> jsnum \<times> jsnum"

definition rgba :: "real \<Rightarrow> real \<Rightarrow> real \<Rightarrow> real \<Rightarrow> rgba" where
  "rgba r g b a = (Fin r, Fin g, Fin b, Fin a)"

text \<open>
  The off-screen canvas of \<open>parseColor\<close> belongs to the browser, not to the program. It
  is taken as a parameter: whether a 2d context is available, the string read back from
  \<open>ctx.fillStyle\<close> after the colour was assigned to it, and the alpha byte of the pixel
  that \<open>fillRect\<close> paints with it.
\<close>

record canvas =
  has2d :: bool
  fillStyle :: "string \<Rightarrow> string"
  pixelAlpha :: "string \<Rightarrow> nat"

definition colorNames :: "(string \<times> rgba) list" where
  "colorNames = [
   (''aliceblue'', rgba 240 248 255 1), (''antiquewhite'', rgba 250 235 215 1),
   (''aqua'', rgba 0 255 255 1), (''aquamarine'', rgba 127 255 212 1),
   (''azure'', rgba 240 255 255 1), (''beige'', rgba 245 245 220 1),
   (''bisque'', rgba 255 228 196 1), (''black'', rgba 0 0 0 1),
   (''blanchedalmond'', rgba 255 235 205 1), (''blue'', rgba 0 0 255 1),
   (''blueviolet'', rgba 138 43 226 1), (''brown'', rgba 165 42 42 1),
   (''burlywood'', rgba 222 184 135 1), (''cadetblue'', rgba 95 158 160 1),
   (''chartreuse'', rgba 127 255 0 1), (''chocolate'', rgba 210 105 30 1),
   (''coral'', rgba 255 127 80 1), (''cornflowerblue'', rgba 100 149 237 1),
   (''cornsilk'', rgba 255 248 220 1), (''crimson'', rgba 220 20 60 1),
   (''cyan'', rgba 0 255 255 1), (''darkblue'', rgba 0 0 139 1),
   (''darkcyan'', rgba 0 139 139 1), (''darkgoldenrod'', rgba 184 134 11 1),
   (''darkgray'', rgba 169 169 169 1), (''darkgreen'', rgba 0 100 0 1),
   (''darkgrey'', rgba 169 169 169 1), (''darkkhaki'', rgba 189 183 107 1),
   (''darkmagenta'', rgba 139 0 139 1), (''darkolivegreen'', rgba 85 107 47 1),
   (''darkorange'', rgba 255 140 0 1), (''darkorchid'', rgba 153 50 204 1),
   (''darkred'', rgba 139 0 0 1), (''darksalmon'', rgba 233 150 122 1),
   (''darkseagreen'', rgba 143 188 143 1), (''darkslateblue'', rgba 72 61 139 1),
   (''darkslategray'', rgba 47 79 79 1), (''darkslategrey'', rgba 47 79 79 1),
   (''darkturquoise'', rgba 0 206 209 1), (''darkviolet'', rgba 148 0 211 1),
   (''deeppink'', rgba 255 20 147 1), (''deepskyblue'', rgba 0 191 255 1),
   (''dimgray'', rgba 105 105 105 1), (''dimgrey'', rgba 105 105 105 1),
   (''dodgerblue'', rgba 30 144 255 1), (''firebrick'', rgba 178 34 34 1),
   (''floralwhite'', rgba 255 250 240 1), (''forestgreen'', rgba 34 139 34 1),
   (''fuchsia'', rgba 255 0 255 1), (''gainsboro'', rgba 220 220 220 1),
   (''ghostwhite'', rgba 248 248 255 1), (''gold'', rgba 255 215 0 1),
   (''goldenrod'', rgba 218 165 32 1), (''gray'', rgba 128 128 128 1),
   (''green'', rgba 0 128 0 1), (''greenyellow'', rgba 173 255 47 1),
   (''grey'', rgba 128 128 128 1), (''honeydew'', rgba 240 255 240 1),
   (''hotpink'', rgba 255 105 180 1), (''indianred'', rgba 205 92 92 1),
   (''indigo'', rgba 75 0 130 1), (''ivory'', rgba 255 255 240 1),
   (''khaki'', rgba 240 230 140 1), (''lavender'', rgba 230 230 250 1),
   (''lavenderblush'', rgba 255 240 245 1), (''lawngreen'', rgba 124 252 0 1),
   (''lemonchiffon'', rgba 255 250 205 1), (''lightblue'', rgba 173 216 230 1),
   (''lightcoral'', rgba 240 128 128 1), (''lightcyan'', rgba 224 255 255 1),
   (''lightgoldenrodyellow'', rgba 250 250 210 1), (''lightgray'', rgba 211 211 211 1),
   (''lightgreen'', rgba 144 238 144 1), (''lightgrey'', rgba 211 211 211 1),
   (''lightpink'', rgba 255 182 193 1), (''lightsalmon'', rgba 255 160 122 1),
   (''lightseagreen'', rgba 32 178 170 1), (''lightskyblue'', rgba 135 206 250 1),
   (''lightslategray'', rgba 119 136 153 1), (''lightslategrey'', rgba 119 136 153 1),
   (''lightsteelblue'', rgba 176 196 222 1), (''lightyellow'', rgba 255 255 224 1),
   (''lime'', rgba 0 255 0 1), (''limegreen'', rgba 50 205 50 1),
   (''linen'', rgba 250 240 230 1), (''magenta'', rgba 255 0 255 1),
   (''maroon'', rgba 128 0 0 1), (''mediumaquamarine'', rgba 102 205 170 1),
   (''mediumblue'', rgba 0 0 205 1), (''mediumorchid'', rgba 186 85 211 1),
   (''mediumpurple'', rgba 147 112 219 1), (''mediumseagreen'', rgba 60 179 113 1),
   (''mediumslateblue'', rgba 123 104 238 1), (''mediumspringgreen'', rgba 0 250 154 1),
   (''mediumturquoise'', rgba 72 209 204 1), (''mediumvioletred'', rgba 199 21 133 1),
   (''midnightblue'', rgba 25 25 112 1), (''mintcream'', rgba 245 255 250 1),
   (''mistyrose'', rgba 255 228 225 1), (''moccasin'', rgba 255 228 181 1),
   (''navajowhite'', rgba 255 222 173 1), (''navy'', rgba 0 0 128 1),
   (''oldlace'', rgba 253 245 230 1), (''olive'', rgba 128 128 0 1),
   (''olivedrab'', rgba 107 142 35 1), (''orange'', rgba 255 165 0 1),
   (''orangered'', rgba 255 69 0 1), (''orchid'', rgba 218 112 214 1),
   (''palegoldenrod'', rgba 238 232 170 1), (''palegreen'', rgba 152 251 152 1),
   (''paleturquoise'', rgba 175 238 238 1), (''palevioletred'', rgba 219 112 147 1),
   (''papayawhip'', rgba 255 239 213 1), (''peachpuff'', rgba 255 218 185 1),
   (''peru'', rgba 205 133 63 1), (''pink'', rgba 255 192 203 1),
   (''plum'', rgba 221 160 221 1), (''powderblue'', rgba 176 224 230 1),
   (''purple'', rgba 128 0 128 1), (''rebeccapurple'', rgba 102 51 153 1),
   (''red'', rgba 255 0 0 1), (''rosybrown'', rgba 188 143 143 1),
   (''royalblue'', rgba 65 105 225 1), (''saddlebrown'', rgba 139 69 19 1),
   (''salmon'', rgba 250 128 114 1), (''sandybrown'', rgba 244 164 96 1),
   (''seagreen'', rgba 46 139 87 1), (''seashell'', rgba 255 245 238 1),
   (''sienna'', rgba 160 82 45 1), (''silver'', rgba 192 192 192 1),
   (''skyblue'', rgba 135 206 235 1), (''slateblue'', rgba 106 90 205 1),
   (''slategray'', rgba 112 128 144 1), (''slategrey'', rgba 112 128 144 1),
   (''snow'', rgba 255 250 250 1), (''springgreen'', rgba 0 255 127 1),
   (''steelblue'', rgba 70 130 180 1), (''tan'', rgba 210 180 140 1),
   (''teal'', rgba 0 128 128 1), (''thistle'', rgba 216 191 216 1),
   (''tomato'', rgba 255 99 71 1), (''turquoise'', rgba 64 224 208 1),
   (''violet'', rgba 238 130 238 1), (''wheat'', rgba 245 222 179 1),
   (''white'', rgba 255 255 255 1), (''whitesmoke'', rgba 245 245 245 1),
   (''yellow'', rgba 255 255 0 1), (''yellowgreen'', rgba 154 205 50 1)
  ]"

text \<open>
  \<open>parseColor\<close> of \<^verbatim>\<open>src/index.ts\<close>. The table is looked up by own keys only (the
  properties inherited from \<open>Object.prototype\<close> are left out).
\<close>

definition expand_hex :: "string \<Rightarrow> string" where
  "expand_hex h = concat (map (\<lambda>c. [c, c]) h)"

definition parseColor :: "canvas \<Rightarrow> string \<Rightarrow> rgba option" where
  "parseColor cv color =
    (if \<not> has2d cv then None
     else let computed = fillStyle cv color in
       if pixelAlpha cv color = 0 then Some (Fin 0, Fin 0, Fin 0, Fin 0)
       else case match_rgb computed of
         Some (r, g, b) \<Rightarrow> Some (parseInt r, parseInt g, parseInt b, parseInt ''1'')
       | None \<Rightarrow>
       (case match_rgba computed of
         Some (r, g, b, a) \<Rightarrow> Some (parseInt r, parseInt g, parseInt b, parseInt a)
       | None \<Rightarrow>
       (case match_hex computed of
         Some m \<Rightarrow>
           let hex0 = drop 1 m;
               hex = (if length hex0 = 3 then expand_hex hex0
                      else if length hex0 = 4 then expand_hex hex0 else hex0);
               r = parseInt16 (substring 0 2 hex);
               g = parseInt16 (substring 2 4 hex);
               b = parseInt16 (substring 4 6 hex);
               a = (if length hex = 8 then js_div (parseInt16 (substring 6 8 hex)) (Fin 255)
                    else Fin 1)
           in Some (r, g, b, a)
       | None \<Rightarrow>
       (case map_of colorNames computed of
         Some _ \<Rightarrow> map_of colorNames (toLowerCase computed)
       | None \<Rightarrow> None))))"

text \<open>A surface that reads every string back as it was assigned and paints it opaque.\<close>

definition echo_canvas :: canvas where
  "echo_canvas = \<lparr>has2d = True, fillStyle = (\<lambda>c. c), pixelAlpha = (\<lambda>c. 255)\<rparr>"

text \<open>A surface that reads every string back as it was assigned and paints nothing.\<close>

definition transparent_canvas :: canvas where
  "transparent_canvas = \<lparr>has2d = True, fillStyle = (\<lambda>c. c), pixelAlpha = (\<lambda>c. 0)\<rparr>"

text \<open>The value of a string of decimal digits, and the text \<open>rgba(r, g, b, a)\<close>.\<close>

definition decimal :: "string \<Rightarrow> real" where
  "decimal ds = of_nat (radix_val 10 digit_val ds)"

definition rgba_text :: "string \<Rightarrow> string \<Rightarrow> string \<Rightarrow> string \<Rightarrow> string" where
  "rgba_text r g b a = ''rgba('' @ r @ '', '' @ g @ '', '' @ b @ '', '' @ a @ '')''"

section \<open>The value classifier\<close>

definition is_unit_char :: "char \<Rightarrow> bool" where
  "is_unit_char c \<longleftrightarrow> is_lower c \<or> c = CHR ''%''"

definition opt_minus :: "string \<Rightarrow> string" where
  "opt_minus s = (case s of [] \<Rightarrow> [] | c # t \<Rightarrow> if c = CHR ''-'' then t else s)"

text \<open>\<open>(\.\d+)?\<close>: the rest after the fraction when there is one, the input otherwise.\<close>

definition opt_fraction :: "string \<Rightarrow> string" where
  "opt_fraction s = (case lit ''.'' s of
                       None \<Rightarrow> s
                     | Some t \<Rightarrow> (case many1 is_digit t of None \<Rightarrow> s | Some (_, u) \<Rightarrow> u))"

text \<open>\<^verbatim>\<open>/^-?\d+(\.\d+)?([a-z%]*)?$/.test(s)\<close>\<close>

definition numeric_pattern :: "string \<Rightarrow> bool" where
  "numeric_pattern s = (case many1 is_digit (opt_minus s) of
                          None \<Rightarrow> False
                        | Some (_, t) \<Rightarrow> list_all is_unit_char (opt_fraction t))"

text \<open>
  \<open>parseFloat\<close> on the strings the source passes, which the pattern above has accepted
  (or, in the OKLCH branch, captures of the form digits, dot, digits): an optional minus,
  digits and an optional fraction. The letters that follow never form an exponent, since
  the pattern allows no digit after them.
\<close>

definition parseFloat :: "string \<Rightarrow> jsnum" where
  "parseFloat s =
    (let t = opt_minus s;
         ip = takeWhile is_digit t;
         fp = (case lit ''.'' (dropWhile is_digit t) of
                 None \<Rightarrow> []
               | Some u \<Rightarrow> takeWhile is_digit u);
         v = decimal ip + decimal fp / 10 ^ length fp
     in if ip = [] then NaN else Fin (if t = s then v else - v))"

text \<open>\<^verbatim>\<open>computed.match(/[a-z%]+$/i)?.[0] || ''\<close>: the longest run of letters and percent signs that ends the string.\<close>

definition unit_suffix :: "string \<Rightarrow> string" where
  "unit_suffix s = rev (takeWhile (\<lambda>c. is_lower c \<or> is_upper c \<or> c = CHR ''%'') (rev s))"

text \<open>
  What the source keeps for a property in \<open>startStyles\<close>, \<open>endStyles\<close> and \<open>units\<close>: two
  colour arrays, two numbers and a unit, or \<open>null\<close> and the destination text.
\<close>

datatype plan =
    ColorPlan rgba rgba
  | NumericPlan jsnum jsnum string
  | OpaquePlan string

definition classify :: "canvas \<Rightarrow> string \<Rightarrow> string \<Rightarrow> plan" where
  "classify cv computed targetVal =
    (let isNumeric = numeric_pattern targetVal;
         targetColor = parseColor cv targetVal;
         computedColor = parseColor cv computed
     in case (targetColor, computedColor) of
          (Some tc, Some cc) \<Rightarrow> ColorPlan cc tc
        | _ \<Rightarrow>
          if isNumeric \<and> numeric_pattern computed
          then NumericPlan (parseFloat computed) (parseFloat targetVal) (unit_suffix computed)
          else OpaquePlan targetVal)"

section \<open>The animation engine\<close>

type_synonym node = nat
type_synonym style = "string \<rightharpoonup> string"

text \<open>
  What the engine asks of the browser: the canvas, the computed style of a node (which
  may depend on the inline styles of every node), and the text of a number in a template
  literal or a string concatenation.
\<close>

record browser =
  surface :: canvas
  getComputedStyle :: "(node \<Rightarrow> style) \<Rightarrow> node \<Rightarrow> string \<Rightarrow> string"
  numberToString :: "jsnum \<Rightarrow> string"

text \<open>
  The arguments of one \<open>animate\<close> call. The properties are listed in the order of the
  \<open>for ... in\<close> loop. The callback is the caller's function, known to the model by a
  label only: the model records that it was called and nothing of what it does.
\<close>

record request =
  properties :: "(string \<times> string) list"
  duration :: jsnum
  easing :: "jsnum \<Rightarrow> jsnum"
  callback :: "nat option"

text \<open>
  A closure pushed on a node's queue. Every \<open>animate\<close> call creates a new function
  object per node; \<open>eid\<close> is its identity, a counter value.
\<close>

record entry =
  eid :: nat
  req :: request

text \<open>The \<open>step\<close> closure handed to \<open>requestAnimationFrame\<close>, with what it captured.\<close>

record stepper =
  s_node :: node
  s_id :: nat
  s_req :: request
  startTime :: real
  plans :: "(string \<times> plan) list"

datatype event =
    Pushed node nat "nat option"
  | Invoked node nat
  | Stepped node nat jsnum
  | Called node nat nat
  | Shifted node nat

text \<open>
  The state: the inline style of every node, the queue attached to a node (absent until
  the first call on it), the callbacks registered for the next animation frame in the
  order of registration, the next closure identity, and the history, newest event first.
\<close>

record state =
  styles :: "node \<Rightarrow> style"
  queues :: "node \<rightharpoonup> entry list"
  frames :: "stepper list"
  fresh :: nat
  events :: "event list"

definition queue_of :: "state \<Rightarrow> node \<Rightarrow> entry list" where
  "queue_of s n = (case queues s n of None \<Rightarrow> [] | Some q \<Rightarrow> q)"

definition record_event :: "event \<Rightarrow> state \<Rightarrow> state" where
  "record_event e s = s\<lparr>events := e # events s\<rparr>"

definition set_style :: "node \<Rightarrow> string \<Rightarrow> string \<Rightarrow> state \<Rightarrow> state" where
  "set_style n p v s = s\<lparr>styles := (styles s)(n := (styles s n)(p \<mapsto> v))\<rparr>"

definition requestAnimationFrame :: "stepper \<Rightarrow> state \<Rightarrow> state" where
  "requestAnimationFrame c s = s\<lparr>frames := frames s @ [c]\<rparr>"

definition build_plans :: "browser \<Rightarrow> (node \<Rightarrow> style) \<Rightarrow> node \<Rightarrow> request \<Rightarrow> (string \<times> plan) list" where
  "build_plans br st n rq =
     map (\<lambda>(prop, v). (prop, classify (surface br) (getComputedStyle br st n prop) (trim v)))
       (properties rq)"

text \<open>
  Calling a queued closure: it reads the clock (\<open>pnow\<close> is what \<open>performance.now()\<close>
  returns), classifies every property and registers its first step for the next frame.
  \<open>stepper_of\<close> is the \<open>step\<close> closure it creates.
\<close>

definition stepper_of :: "browser \<Rightarrow> real \<Rightarrow> (node \<Rightarrow> style) \<Rightarrow> node \<Rightarrow> entry \<Rightarrow> stepper" where
  "stepper_of br pnow st n e =
     \<lparr>s_node = n, s_id = eid e, s_req = req e, startTime = pnow,
      plans = build_plans br st n (req e)\<rparr>"

definition invoke :: "browser \<Rightarrow> real \<Rightarrow> node \<Rightarrow> entry \<Rightarrow> state \<Rightarrow> state" where
  "invoke br pnow n e s =
     requestAnimationFrame (stepper_of br pnow (styles s) n e)
       (record_event (Invoked n (eid e)) s)"

text \<open>The body of \<open>this.forEach\<close> in \<open>animate\<close>, for one node.\<close>

definition animate_el :: "browser \<Rightarrow> real \<Rightarrow> request \<Rightarrow> state \<Rightarrow> node \<Rightarrow> state" where
  "animate_el br pnow rq s n =
     (let q = queue_of s n @ [\<lparr>eid = fresh s, req = rq\<rparr>];
          s1 = record_event (Pushed n (fresh s) (callback rq))
                 (s\<lparr>queues := (queues s)(n \<mapsto> q), fresh := Suc (fresh s)\<rparr>)
      in if length q = 1 then invoke br pnow n (hd q) s1 else s1)"

definition animate :: "browser \<Rightarrow> real \<Rightarrow> node list \<Rightarrow> request \<Rightarrow> state \<Rightarrow> state" where
  "animate br pnow sel rq s = foldl (animate_el br pnow rq) s sel"

text \<open>\<open>start + (end - start) * eased\<close>\<close>

definition blend :: "jsnum \<Rightarrow> jsnum \<Rightarrow> jsnum \<Rightarrow> jsnum" where
  "blend st en eased = js_add st (js_mul (js_sub en st) eased)"

text \<open>
  The value a step assigns to a property, if it assigns one; \<open>t\<close> is the raw progress,
  \<open>eased\<close> the result of the easing function.
\<close>

fun interpolate :: "browser \<Rightarrow> jsnum \<Rightarrow> jsnum \<Rightarrow> plan \<Rightarrow> string option" where
  "interpolate br t eased (ColorPlan (s0, s1, s2, s3) (e0, e1, e2, e3)) =
     (let r = js_round (blend s0 e0 eased);
          g = js_round (blend s1 e1 eased);
          b = js_round (blend s2 e2 eased);
          a = blend s3 e3 eased
      in Some (''rgb('' @ numberToString br r @ '', '' @ numberToString br g @ '', ''
               @ numberToString br b @ '', '' @ numberToString br a @ '')''))"
| "interpolate br t eased (NumericPlan st en u) =
     Some (numberToString br (blend st en eased) @ u)"
| "interpolate br t eased (OpaquePlan v) = (if t = Fin 1 then Some v else None)"

text \<open>\<open>Math.min(1, (now - startTime) / duration)\<close>\<close>

definition progress :: "real \<Rightarrow> real \<Rightarrow> jsnum \<Rightarrow> jsnum" where
  "progress now start d = js_min (Fin 1) (js_div (Fin (now - start)) d)"

definition write_plan :: "browser \<Rightarrow> node \<Rightarrow> jsnum \<Rightarrow> jsnum \<Rightarrow> state \<Rightarrow> string \<times> plan \<Rightarrow> state" where
  "write_plan br n t eased s pp =
     (case interpolate br t eased (snd pp) of
        None \<Rightarrow> s
      | Some v \<Rightarrow> set_style n (fst pp) v s)"

text \<open>\<open>queue.shift()\<close>\<close>

definition shift :: "node \<Rightarrow> state \<Rightarrow> state" where
  "shift n s = (case queue_of s n of
                  [] \<Rightarrow> s
                | e # q \<Rightarrow> record_event (Shifted n (eid e)) (s\<lparr>queues := (queues s)(n \<mapsto> q)\<rparr>))"

text \<open>
  One call of a \<open>step\<close> closure by the browser, with the frame's time stamp \<open>now\<close>.
  \<open>written\<close> is the loop over the plans, \<open>called\<close> is \<open>if (callback) callback()\<close> and
  \<open>promote\<close> is \<open>if (queue.length) queue[0]()\<close>.
\<close>

definition written :: "browser \<Rightarrow> real \<Rightarrow> state \<Rightarrow> stepper \<Rightarrow> state" where
  "written br now s c =
     (let t = progress now (startTime c) (duration (s_req c));
          eased = easing (s_req c) t
      in foldl (write_plan br (s_node c) t eased)
           (record_event (Stepped (s_node c) (s_id c) t) s) (plans c))"

definition called :: "stepper \<Rightarrow> state \<Rightarrow> state" where
  "called c s = (case callback (s_req c) of
                   None \<Rightarrow> s
                 | Some f \<Rightarrow> record_event (Called (s_node c) (s_id c) f) s)"

definition promote :: "browser \<Rightarrow> real \<Rightarrow> node \<Rightarrow> state \<Rightarrow> state" where
  "promote br pnow n s = (case queue_of s n of [] \<Rightarrow> s | e # _ \<Rightarrow> invoke br pnow n e s)"

definition step :: "browser \<Rightarrow> real \<Rightarrow> real \<Rightarrow> state \<Rightarrow> stepper \<Rightarrow> state" where
  "step br now pnow s c =
     (if js_lt (progress now (startTime c) (duration (s_req c))) (Fin 1)
      then requestAnimationFrame c (written br now s c)
      else promote br pnow (s_node c) (shift (s_node c) (called c (written br now s c))))"

text \<open>
  One animation frame: the browser calls the callbacks registered before the frame, in
  order; what they register is kept for the next frame.
\<close>

definition frame :: "browser \<Rightarrow> real \<Rightarrow> real \<Rightarrow> state \<Rightarrow> state" where
  "frame br now pnow s = foldl (step br now pnow) (s\<lparr>frames := []\<rparr>) (frames s)"

datatype action = Animate real "node list" request | Frame real real

fun exec :: "browser \<Rightarrow> state \<Rightarrow> action \<Rightarrow> state" where
  "exec br s (Animate pnow sel rq) = animate br pnow sel rq s"
| "exec br s (Frame now pnow) = frame br now pnow s"

definition initial :: "(node \<Rightarrow> style) \<Rightarrow> state" where
  "initial st = \<lparr>styles = st, queues = Map.empty, frames = [], fresh = 0, events = []\<rparr>"

definition run :: "browser \<Rightarrow> (node \<Rightarrow> style) \<Rightarrow> action list \<Rightarrow> state" where
  "run br st acts = foldl (exec br) (initial st) acts"

text \<open>The steppers that drive a node: its active entries.\<close>

definition active :: "state \<Rightarrow> node \<Rightarrow> stepper list" where
  "active s n = filter (\<lambda>c. s_node c = n) (frames s)"

subsection \<open>A browser to run the model on\<close>

definition digit_char :: "nat \<Rightarrow> char" where
  "digit_char d = ''0123456789'' ! d"

fun show_nat :: "nat \<Rightarrow> string" where
  "show_nat n = (if n < 10 then [digit_char n]
                 else show_nat (n div 10) @ [digit_char (n mod 10)])"

fun frac_digits :: "nat \<Rightarrow> real \<Rightarrow> string" where
  "frac_digits 0 x = []"
| "frac_digits (Suc k) x =
     (if x = 0 then []
      else digit_char (nat \<lfloor>10 * x\<rfloor>) # frac_digits k (10 * x - of_int \<lfloor>10 * x\<rfloor>))"

text \<open>Decimal text of a number, exact for integers and for short decimal fractions.\<close>

fun number_text :: "jsnum \<Rightarrow> string" where
  "number_text (Fin x) =
     (let m = \<bar>x\<bar>; i = nat \<lfloor>m\<rfloor>; f = m - of_nat i
      in (if x < 0 then ''-'' else '''') @ show_nat i
         @ (if f = 0 then '''' else ''.'' @ frac_digits 6 f))"
| "number_text PInf = ''Infinity''"
| "number_text NInf = ''-Infinity''"
| "number_text NaN = ''NaN''"

text \<open>
  The computed style is the inline style where one is set, and the empty string
  otherwise; colours are resolved on the surface that reads every string back.
\<close>

definition demo_browser :: browser where
  "demo_browser = \<lparr>surface = echo_canvas,
     getComputedStyle = (\<lambda>st n p. case st n p of None \<Rightarrow> '''' | Some v \<Rightarrow> v),
     numberToString = number_text\<rparr>"

definition linear :: "jsnum \<Rightarrow> jsnum" where
  "linear t = t"

text \<open>
  A node that is red, hidden and at the left edge, and a request that moves it, turns it
  blue and shows it, in 400 ms.
\<close>

definition demo_styles :: "node \<Rightarrow> style" where
  "demo_styles = (\<lambda>n. [''left'' \<mapsto> ''0px'', ''color'' \<mapsto> ''rgb(255,0,0)'', ''display'' \<mapsto> ''none''])"

definition demo_request :: request where
  "demo_request = \<lparr>properties = [(''left'', ''100px''), (''color'', ''blue''), (''display'', '' block '')],
     duration = Fin 400, easing = linear, callback = Some 7\<rparr>"

text \<open>The state after that request was issued at time 0 on node 0, and the step it registered.\<close>

definition demo_entry :: entry where
  "demo_entry = \<lparr>eid = 0, req = demo_request\<rparr>"

definition demo_started :: state where
  "demo_started = animate_el demo_browser 0 demo_request (initial demo_styles) 0"

definition demo_stepper :: stepper where
  "demo_stepper = stepper_of demo_browser 0 demo_styles 0 demo_entry"

text \<open>The same request with a negative duration.\<close>

definition backwards_request :: request where
  "backwards_request = demo_request\<lparr>duration := Fin (- 100)\<rparr>"

text \<open>The same request with duration 0, the state after it was issued and its step.\<close>

definition instant_request :: request where
  "instant_request = demo_request\<lparr>duration := Fin 0\<rparr>"

definition instant_started :: state where
  "instant_started = animate_el demo_browser 0 instant_request (initial demo_styles) 0"

definition instant_stepper :: stepper where
  "instant_stepper = stepper_of demo_browser 0 demo_styles 0 \<lparr>eid = 0, req = instant_request\<rparr>"

text \<open>
  Two requests on node 0, a frame that completes the first and a frame that steps the
  second; and a step of node 1.
\<close>

definition demo_acts :: "action list" where
  "demo_acts = [Animate 0 [0] demo_request, Animate 1 [0] demo_request, Frame 400 400, Frame 500 500]"

definition other_stepper :: stepper where
  "other_stepper = stepper_of demo_browser 0 demo_styles 1 demo_entry"

section \<open>Invariants of the queues and of the history\<close>

text \<open>What belongs to one node: its inline style, its queue and the steps that drive it.\<close>

definition node_view :: "state \<Rightarrow> node \<Rightarrow> style \<times> entry list \<times> stepper list" where
  "node_view s n = (styles s n, queue_of s n, active s n)"

text \<open>
  The state in the middle of a frame, after the first \<open>k\<close> callbacks of the frame have
  run, and the callbacks of the frame that have not run yet.
\<close>

definition mid_frame :: "browser \<Rightarrow> real \<Rightarrow> real \<Rightarrow> state \<Rightarrow> nat \<Rightarrow> state" where
  "mid_frame br now pnow s k = foldl (step br now pnow) (s\<lparr>frames := []\<rparr>) (take k (frames s))"

definition waiting :: "state \<Rightarrow> nat \<Rightarrow> stepper list" where
  "waiting s k = drop k (frames s)"

text \<open>
  Every pending step belongs to the head of its node's queue, and no node has two. \<open>cs\<close>
  lists the pending steps: those registered for the next frame and, in the middle of a
  frame, those of the frame that have not run yet.
\<close>

definition heads_active :: "stepper list \<Rightarrow> state \<Rightarrow> bool" where
  "heads_active cs s \<longleftrightarrow>
     distinct (map s_node cs) \<and>
     (\<forall>c\<in>set cs. \<exists>e q. queue_of s (s_node c) = e # q \<and> s_id c = eid e \<and> s_req c = req e
        \<and> map fst (plans c) = map fst (properties (req e)))"

text \<open>Closure identities grow along every queue and are below the counter.\<close>

definition queues_ordered :: "state \<Rightarrow> bool" where
  "queues_ordered s \<longleftrightarrow>
     (\<forall>n. sorted_wrt (<) (map eid (queue_of s n)) \<and> (\<forall>e\<in>set (queue_of s n). eid e < fresh s))"

fun ev_id :: "event \<Rightarrow> nat" where
  "ev_id (Pushed n k cb) = k"
| "ev_id (Invoked n k) = k"
| "ev_id (Stepped n k t) = k"
| "ev_id (Called n k f) = k"
| "ev_id (Shifted n k) = k"

text \<open>How the history describes the queues and the pending steps.\<close>

definition log_linked :: "stepper list \<Rightarrow> state \<Rightarrow> bool" where
  "log_linked cs s \<longleftrightarrow>
     (\<forall>ev\<in>set (events s). ev_id ev < fresh s) \<and>
     (\<forall>n. \<forall>e\<in>set (queue_of s n).
        Pushed n (eid e) (callback (req e)) \<in> set (events s) \<and>
        (\<forall>m cb. Pushed m (eid e) cb \<in> set (events s) \<longrightarrow> m = n \<and> cb = callback (req e)) \<and>
        (\<forall>f. Called n (eid e) f \<notin> set (events s))) \<and>
     (\<forall>n j cb. Pushed n j cb \<in> set (events s) \<longrightarrow>
        j \<in> eid ` set (queue_of s n) \<or> Shifted n j \<in> set (events s)) \<and>
     (\<forall>c\<in>set cs. Invoked (s_node c) (s_id c) \<in> set (events s))"

text \<open>
  When an event may follow a history: a closure is pushed with an identity above all
  earlier ones; it is invoked after it was pushed and after every closure pushed earlier
  on its node has left the queue; a step is evaluated after its closure was invoked; a
  callback is called once at most; a closure that was pushed with a callback leaves the
  queue after the callback was called.
\<close>

fun admissible :: "event \<Rightarrow> event list \<Rightarrow> bool" where
  "admissible (Pushed n k cb) l = (\<forall>e\<in>set l. ev_id e < k)"
| "admissible (Invoked n k) l =
     ((\<exists>cb. Pushed n k cb \<in> set l) \<and>
      (\<forall>j cb. j < k \<and> Pushed n j cb \<in> set l \<longrightarrow> Shifted n j \<in> set l))"
| "admissible (Stepped n k t) l = (Invoked n k \<in> set l)"
| "admissible (Called n k f) l = (Called n k f \<notin> set l)"
| "admissible (Shifted n k) l = (\<forall>f. Pushed n k (Some f) \<in> set l \<longrightarrow> Called n k f \<in> set l)"

fun orderly :: "event list \<Rightarrow> bool" where
  "orderly [] = True"
| "orderly (e # l) = (admissible e l \<and> orderly l)"

definition consistent :: "stepper list \<Rightarrow> state \<Rightarrow> bool" where
  "consistent cs s \<longleftrightarrow> heads_active cs s \<and> queues_ordered s \<and> log_linked cs s \<and> orderly (events s)"

text \<open>What an operation adds to the pending steps.\<close>

definition animate_el_adds :: "browser \<Rightarrow> real \<Rightarrow> request \<Rightarrow> state \<Rightarrow> node \<Rightarrow> stepper list" where
  "animate_el_adds br pnow rq s n =
     (if queue_of s n = [] then [stepper_of br pnow (styles s) n \<lparr>eid = fresh s, req = rq\<rparr>] else [])"

definition step_adds :: "browser \<Rightarrow> real \<Rightarrow> real \<Rightarrow> state \<Rightarrow> stepper \<Rightarrow> stepper list" where
  "step_adds br now pnow s c =
     (if js_lt (progress now (startTime c) (duration (s_req c))) (Fin 1) then [c]
      else case tl (queue_of s (s_node c)) of
             [] \<Rightarrow> []
           | e # _ \<Rightarrow> [stepper_of br pnow (styles (written br now s c)) (s_node c) e])"

section \<open>The earlier revision of the resolver, with OKLCH\<close>

text \<open>
  The revision of the library that resolves \<open>oklch(L C H)\<close> returns colours as arrays of
  three numbers and does not paint a pixel. Its functions are modelled here;
  \<open>parseColor_rgb\<close> is its \<open>parseColor\<close>.
\<close>

fun js_abs :: "jsnum \<Rightarrow> jsnum" where
  "js_abs (Fin x) = Fin \<bar>x\<bar>"
| "js_abs PInf = PInf"
| "js_abs NInf = PInf"
| "js_abs NaN = NaN"

fun js_cos :: "jsnum \<Rightarrow> jsnum" where
  "js_cos (Fin x) = Fin (cos x)"
| "js_cos _ = NaN"

fun js_sin :: "jsnum \<Rightarrow> jsnum" where
  "js_sin (Fin x) = Fin (sin x)"
| "js_sin _ = NaN"

text \<open>\<open>x ** y\<close> for a finite exponent \<open>y > 0\<close> that is not an integer.\<close>

fun js_pow :: "jsnum \<Rightarrow> real \<Rightarrow> jsnum" where
  "js_pow (Fin x) y = (if x < 0 then NaN else Fin (x powr y))"
| "js_pow PInf y = PInf"
| "js_pow NInf y = PInf"
| "js_pow NaN y = NaN"

text \<open>\<open>x ** 3\<close>\<close>

definition js_cube :: "jsnum \<Rightarrow> jsnum" where
  "js_cube x = js_mul x (js_mul x x)"

definition multiplyMatrices :: "jsnum list \<Rightarrow> jsnum list \<Rightarrow> jsnum list" where
  "multiplyMatrices A B =
     [js_add (js_add (js_mul (A ! 0) (B ! 0)) (js_mul (A ! 1) (B ! 1))) (js_mul (A ! 2) (B ! 2)),
      js_add (js_add (js_mul (A ! 3) (B ! 0)) (js_mul (A ! 4) (B ! 1))) (js_mul (A ! 5) (B ! 2)),
      js_add (js_add (js_mul (A ! 6) (B ! 0)) (js_mul (A ! 7) (B ! 1))) (js_mul (A ! 8) (B ! 2))]"

definition oklch2oklab :: "jsnum \<times> jsnum \<times> jsnum \<Rightarrow> jsnum list" where
  "oklch2oklab lch =
     (case lch of (l, c, h) \<Rightarrow>
        [l,
         if h = NaN then Fin 0 else js_mul c (js_cos (js_div (js_mul h (Fin pi)) (Fin 180))),
         if h = NaN then Fin 0 else js_mul c (js_sin (js_div (js_mul h (Fin pi)) (Fin 180)))])"

definition gamma_encode :: "jsnum \<Rightarrow> jsnum" where
  "gamma_encode c =
     (if js_lt (Fin 0.0031308) (js_abs c)
      then js_mul (if js_lt c (Fin 0) then Fin (- 1) else Fin 1)
             (js_sub (js_mul (Fin 1.055) (js_pow (js_abs c) (1 / 2.4))) (Fin 0.055))
      else js_mul (Fin 12.92) c)"

definition srgbLinear2rgb :: "jsnum list \<Rightarrow> jsnum list" where
  "srgbLinear2rgb rgb = map gamma_encode rgb"

definition lms_matrix :: "jsnum list" where
  "lms_matrix = map Fin
     [1, 0.3963377773761749, 0.2158037573099136,
      1, - 0.1055613458156586, - 0.0638541728258133,
      1, - 0.0894841775298119, - 1.2914855480194092]"

definition xyz_matrix :: "jsnum list" where
  "xyz_matrix = map Fin
     [1.2268798758459243, - 0.5578149944602171, 0.2813910456659647,
      - 0.0405757452148008, 1.1122868032803170, - 0.0717110580655164,
      - 0.0763729366746601, - 0.4214933324022432, 1.5869240198367816]"

definition rgb_matrix :: "jsnum list" where
  "rgb_matrix = map Fin
     [3.2409699419045226, - 1.537383177570094, - 0.4986107602930034,
      - 0.9692436362808796, 1.8759675015077202, 0.04155505740717559,
      0.05563007969699366, - 0.20397695888897652, 1.0569715142428786]"

definition oklab2xyz :: "jsnum list \<Rightarrow> jsnum list" where
  "oklab2xyz lab =
     (let LMSg = multiplyMatrices lms_matrix lab;
          LMS = map js_cube LMSg
      in multiplyMatrices xyz_matrix LMS)"

definition xyz2rgbLinear :: "jsnum list \<Rightarrow> jsnum list" where
  "xyz2rgbLinear xyz = multiplyMatrices rgb_matrix xyz"

definition oklch2rgb :: "jsnum \<times> jsnum \<times> jsnum \<Rightarrow> jsnum list" where
  "oklch2rgb lch =
     (let oklab = oklch2oklab lch;
          xyz = oklab2xyz oklab;
          rgbLinear = xyz2rgbLinear xyz
      in srgbLinear2rgb rgbLinear)"

text \<open>\<open>(\d+\.\d+)\<close>: the captured text and the rest.\<close>

definition decimal_capture :: "string \<Rightarrow> (string \<times> string) option" where
  "decimal_capture s0 = do {
     (ip, s) \<leftarrow> many1 is_digit s0;
     s \<leftarrow> lit ''.'' s;
     (fp, s) \<leftarrow> many1 is_digit s;
     Some (ip @ ''.'' @ fp, s)
   }"

text \<open>\<^verbatim>\<open>/^oklch\((\d+\.\d+)\s+(\d+\.\d+)\s+(\d+\.\d+)\)$/\<close>\<close>

definition match_oklch :: "string \<Rightarrow> (string \<times> string \<times> string) option" where
  "match_oklch s0 = do {
     s \<leftarrow> lit ''oklch('' s0;
     (l, s) \<leftarrow> decimal_capture s;
     (_, s) \<leftarrow> many1 is_space s;
     (c, s) \<leftarrow> decimal_capture s;
     (_, s) \<leftarrow> many1 is_space s;
     (h, s) \<leftarrow> decimal_capture s;
     s \<leftarrow> lit '')'' s;
     at_end s (l, c, h)
   }"

definition colorNames_rgb :: "(string \<times> jsnum list) list" where
  "colorNames_rgb =
     [(''red'', [Fin 255, Fin 0, Fin 0]),
      (''green'', [Fin 0, Fin 255, Fin 0]),
      (''blue'', [Fin 0, Fin 0, Fin 255])]"

definition parseColor_rgb :: "canvas \<Rightarrow> string \<Rightarrow> jsnum list option" where
  "parseColor_rgb cv color =
    (if \<not> has2d cv then None
     else let computed = fillStyle cv color in
       case match_rgb computed of
         Some (r, g, b) \<Rightarrow> Some [parseInt r, parseInt g, parseInt b]
       | None \<Rightarrow>
       (case match_rgba computed of
         Some (r, g, b, a) \<Rightarrow> Some [parseInt r, parseInt g, parseInt b]
       | None \<Rightarrow>
       (case match_hex computed of
         Some m \<Rightarrow>
           let hex0 = drop 1 m;
               hex = (if length hex0 = 3 then expand_hex hex0 else hex0)
           in Some [parseInt16 (substring 0 2 hex), parseInt16 (substring 2 4 hex),
                    parseInt16 (substring 4 6 hex)]
       | None \<Rightarrow>
       (case match_oklch computed of
         Some (l, c, h) \<Rightarrow>
           let rgb = oklch2rgb (parseFloat l, parseFloat c, parseFloat h)
           in Some [rgb ! 0, rgb ! 1, rgb ! 2]
       | None \<Rightarrow> map_of colorNames_rgb computed))))"

text \<open>The text \<open>oklch(L C H)\<close> of three numbers written as digits, a dot and digits.\<close>

definition decimal_text :: "string \<Rightarrow> string \<Rightarrow> string" where
  "decimal_text ip fp = ip @ ''.'' @ fp"

definition oklch_text :: "string \<Rightarrow> string \<Rightarrow> string \<Rightarrow> string" where
  "oklch_text l c h = ''oklch('' @ l @ '' '' @ c @ '' '' @ h @ '')''"

section \<open>The colour resolver: rgba and hexadecimal forms\<close>

lemma lit_append: "lit p (p @ s) = Some s"
  by (simp add: lit_def)

lemma many1_run:
  assumes "r \<noteq> []" "list_all P r" "\<not> P c"
  shows "many1 P (r @ c # rest) = Some (r, c # rest)"
proof -
  have "\<forall>x\<in>set r. P x" using assms(2) by (simp add: list_all_iff)
  then have t: "takeWhile P (r @ c # rest) = r" and d: "dropWhile P (r @ c # rest) = c # rest"
    using assms(3) by (simp_all add: takeWhile_append2 dropWhile_append2)
  show ?thesis unfolding many1_def t d using assms(1) by (cases r) simp_all
qed

lemma skip_space_digits:
  assumes "r \<noteq> []" "list_all P r" "\<And>c. P c \<Longrightarrow> \<not> is_space c"
  shows "dropWhile is_space (r @ rest) = r @ rest"
proof -
  obtain x xs where r: "r = x # xs" using assms(1) by (cases r) auto
  then have "P x" using assms(2) by simp
  then have "\<not> is_space x" using assms(3) by blast
  then show ?thesis by (simp add: r is_space_def)
qed

lemma digit_not_space: "is_digit c \<Longrightarrow> \<not> is_space c"
  by (auto simp: is_digit_def is_space_def)

lemma alpha_not_space: "is_digit c \<or> c = CHR ''.'' \<Longrightarrow> \<not> is_space c"
  by (auto simp: is_digit_def is_space_def)

lemma parseInt_digits:
  assumes "r \<noteq> []" "list_all is_digit r"
  shows "parseInt r = Fin (decimal r)"
proof -
  have "takeWhile is_digit r = r" using assms(2) by (simp add: list_all_iff)
  then show ?thesis unfolding parseInt_def decimal_def using assms(1) by (cases r) simp_all
qed

lemma match_rgba_text:
  assumes "r \<noteq> []" "list_all is_digit r" "g \<noteq> []" "list_all is_digit g"
    "b \<noteq> []" "list_all is_digit b"
    "a \<noteq> []" "list_all (\<lambda>c. is_digit c \<or> c = CHR ''.'') a"
  shows "match_rgba (rgba_text r g b a) = Some (r, g, b, a)"
proof -
  have c: "\<not> is_digit CHR '',''" and p: "\<not> (is_digit CHR '')'' \<or> CHR '')'' = CHR ''.'')"
    by (simp_all add: is_digit_def)
  have 1: "lit ''rgba('' (rgba_text r g b a) = Some (r @ CHR '','' # CHR '' '' # g @ CHR '','' # CHR '' '' # b @ CHR '','' # CHR '' '' # a @ '')'')"
    by (simp add: lit_def rgba_text_def)
  have 2: "\<And>s. lit '','' (CHR '','' # s) = Some s" and 3: "\<And>s. lit '')'' (CHR '')'' # s) = Some s"
    and 4: "is_space CHR '' ''"
    by (simp_all add: lit_def is_space_def)
  show ?thesis
    unfolding match_rgba_def 1
    by (simp add: many1_run [OF assms(1,2) c] many1_run [OF assms(3,4) c]
        many1_run [OF assms(5,6) c] many1_run [OF assms(7,8) p] 2 3 4 at_end_def
        skip_space_digits [OF assms(3,4) digit_not_space]
        skip_space_digits [OF assms(5,6) digit_not_space]
        skip_space_digits [OF assms(7,8) alpha_not_space])
qed

lemma match_rgb_rgba_text: "match_rgb (rgba_text r g b a) = None"
  by (simp add: match_rgb_def rgba_text_def lit_def)

text \<open>
  C5, as amended. For an input \<open>rgba(r, g, b, a)\<close> that the surface reads back unchanged,
  with \<open>r\<close>, \<open>g\<close>, \<open>b\<close> non-empty digit strings and \<open>a\<close> a non-empty string of digits and
  dots: when the surface reports zero alpha for the painted pixel the resolver returns
  \<open>[0, 0, 0, 0]\<close>, a colour and not "not a colour"; otherwise it returns a colour whose
  first three components are the integers \<open>r\<close>, \<open>g\<close>, \<open>b\<close>. Nothing is said of the
  fourth component in that case.
\<close>

theorem parseColor_rgba_channels:
  assumes "has2d cv" and "fillStyle cv (rgba_text r g b a) = rgba_text r g b a"
    and "r \<noteq> []" "list_all is_digit r" "g \<noteq> []" "list_all is_digit g"
    and "b \<noteq> []" "list_all is_digit b"
    and "a \<noteq> []" "list_all (\<lambda>c. is_digit c \<or> c = CHR ''.'') a"
  shows "if pixelAlpha cv (rgba_text r g b a) = 0
         then parseColor cv (rgba_text r g b a) = Some (Fin 0, Fin 0, Fin 0, Fin 0)
         else \<exists>al. parseColor cv (rgba_text r g b a)
                = Some (Fin (decimal r), Fin (decimal g), Fin (decimal b), al)"
  using assms(1,2)
  by (simp add: parseColor_def match_rgb_rgba_text match_rgba_text [OF assms(3-10)]
      parseInt_digits [OF assms(3,4)] parseInt_digits [OF assms(5,6)] parseInt_digits [OF assms(7,8)])

theorem parseColor_rgba_channels_witness:
  "has2d echo_canvas \<and> fillStyle echo_canvas (rgba_text ''10'' ''20'' ''30'' ''0.5'') = rgba_text ''10'' ''20'' ''30'' ''0.5''
   \<and> rgba_text ''10'' ''20'' ''30'' ''0.5'' = ''rgba(10, 20, 30, 0.5)''
   \<and> pixelAlpha echo_canvas (rgba_text ''10'' ''20'' ''30'' ''0.5'') \<noteq> 0
   \<and> (\<exists>al. parseColor echo_canvas ''rgba(10, 20, 30, 0.5)'' = Some (Fin 10, Fin 20, Fin 30, al))"
  using parseColor_rgba_channels [of echo_canvas "''10''" "''20''" "''30''" "''0.5''"]
  by (simp add: echo_canvas_def rgba_text_def is_digit_def decimal_def radix_val_def digit_val_def)

text \<open>
  C5 as stated fails twice. The alpha text goes through \<open>parseInt\<close>, so \<open>0.5\<close> comes back
  as \<open>0\<close>; and on a surface that reports zero alpha the result is \<open>[0, 0, 0, 0]\<close>, not
  \<open>[r, g, b, 0]\<close>.
\<close>

theorem parseColor_rgba_alpha_counterexample:
  "parseColor echo_canvas ''rgba(10, 20, 30, 0.5)'' \<noteq> Some (Fin 10, Fin 20, Fin 30, Fin (1 / 2))
   \<and> parseColor transparent_canvas ''rgba(10, 20, 30, 0)'' \<noteq> Some (Fin 10, Fin 20, Fin 30, Fin 0)"
  by (simp add: parseColor_def echo_canvas_def transparent_canvas_def match_rgb_def match_rgba_def lit_def many1_def
      at_end_def is_digit_def is_space_def parseInt_def radix_val_def digit_val_def)

text \<open>
  C6 says that the resolver recognises the eight-digit form \<open>#RRGGBBAA\<close> and returns its
  last byte divided by 255 as alpha. The expression that guards the hexadecimal branch
  accepts three or six digits only, so an eight-digit value read back as it is falls
  through to the table of names and is not a colour.
\<close>

theorem parseColor_hex8_rejected:
  "parseColor echo_canvas ''#11223344'' = None"
  by code_simp

text \<open>The three-digit and the six-digit forms are recognised, with alpha 1.\<close>

lemma parseColor_hex3_hex6:
  "parseColor echo_canvas ''#abc'' = Some (Fin 170, Fin 187, Fin 204, Fin 1)"
  "parseColor echo_canvas ''#A1b2C3'' = Some (Fin 161, Fin 178, Fin 195, Fin 1)"
  "parseColor echo_canvas ''#1234'' = None"
  by code_simp+

section \<open>The effect of the engine's operations, field by field\<close>

lemma write_plan_fields [simp]:
  "queues (write_plan br n t x s pp) = queues s"
  "frames (write_plan br n t x s pp) = frames s"
  "fresh (write_plan br n t x s pp) = fresh s"
  "events (write_plan br n t x s pp) = events s"
  by (simp_all add: write_plan_def set_style_def split: option.splits)

lemma write_plan_styles:
  "styles (write_plan br n t x s pp) n' p =
     (if n' = n \<and> p = fst pp
      then (case interpolate br t x (snd pp) of None \<Rightarrow> styles s n' p | Some v \<Rightarrow> Some v)
      else styles s n' p)"
  by (simp add: write_plan_def set_style_def split: option.splits)

lemma foldl_write_fields [simp]:
  "queues (foldl (write_plan br n t x) s ps) = queues s"
  "frames (foldl (write_plan br n t x) s ps) = frames s"
  "fresh (foldl (write_plan br n t x) s ps) = fresh s"
  "events (foldl (write_plan br n t x) s ps) = events s"
  by (induction ps arbitrary: s) simp_all

lemma foldl_write_other:
  "n' \<noteq> n \<or> p \<notin> fst ` set ps \<Longrightarrow>
     styles (foldl (write_plan br n t x) s ps) n' p = styles s n' p"
  by (induction ps arbitrary: s) (auto simp: write_plan_styles)

lemma foldl_write_at:
  "distinct (map fst ps) \<Longrightarrow> (p, pl) \<in> set ps \<Longrightarrow>
     styles (foldl (write_plan br n t x) s ps) n p =
       (case interpolate br t x pl of None \<Rightarrow> styles s n p | Some v \<Rightarrow> Some v)"
proof (induction ps arbitrary: s)
  case Nil
  then show ?case by simp
next
  case (Cons q ps)
  show ?case
  proof (cases "q = (p, pl)")
    case True
    then have "p \<notin> fst ` set ps" using Cons.prems(1) by auto
    then have "styles (foldl (write_plan br n t x) (write_plan br n t x s q) ps) n p
               = styles (write_plan br n t x s q) n p"
      by (simp add: foldl_write_other)
    then show ?thesis using True by (simp add: write_plan_styles)
  next
    case False
    then have in_ps: "(p, pl) \<in> set ps" using Cons.prems(2) by simp
    then have "fst q \<noteq> p" using Cons.prems(1) by (auto simp: image_iff)
    then have "styles (write_plan br n t x s q) n p = styles s n p"
      by (simp add: write_plan_styles)
    moreover have "distinct (map fst ps)" using Cons.prems(1) by simp
    ultimately show ?thesis using Cons.IH [OF _ in_ps, of "write_plan br n t x s q"]
      by (simp split: option.split)
  qed
qed

lemma queue_of_simps [simp]:
  "queue_of (s\<lparr>frames := f\<rparr>) = queue_of s"
  "queue_of (s\<lparr>events := ev\<rparr>) = queue_of s"
  "queue_of (s\<lparr>fresh := k\<rparr>) = queue_of s"
  "queue_of (s\<lparr>styles := st\<rparr>) = queue_of s"
  "queue_of (s\<lparr>queues := (queues s)(n \<mapsto> q)\<rparr>) m = (if m = n then q else queue_of s m)"
  by (auto simp: queue_of_def fun_eq_iff)

lemma queue_of_cong: "queues s = queues s' \<Longrightarrow> queue_of s = queue_of s'"
  by (auto simp: queue_of_def fun_eq_iff)

lemma invoke_fields:
  "styles (invoke br pnow n e s) = styles s"
  "queues (invoke br pnow n e s) = queues s"
  "frames (invoke br pnow n e s) = frames s @ [stepper_of br pnow (styles s) n e]"
  "fresh (invoke br pnow n e s) = fresh s"
  "events (invoke br pnow n e s) = Invoked n (eid e) # events s"
  by (simp_all add: invoke_def requestAnimationFrame_def record_event_def)

lemma animate_el_fields:
  "styles (animate_el br pnow rq s n) = styles s"
  "queue_of (animate_el br pnow rq s n) m =
     (if m = n then queue_of s n @ [\<lparr>eid = fresh s, req = rq\<rparr>] else queue_of s m)"
  "frames (animate_el br pnow rq s n) =
     frames s @ (if queue_of s n = [] then [stepper_of br pnow (styles s) n \<lparr>eid = fresh s, req = rq\<rparr>] else [])"
  "fresh (animate_el br pnow rq s n) = Suc (fresh s)"
  "events (animate_el br pnow rq s n) =
     (if queue_of s n = [] then [Invoked n (fresh s)] else []) @ Pushed n (fresh s) (callback rq) # events s"
  by (auto simp: animate_el_def Let_def invoke_fields record_event_def queue_of_cong [OF invoke_fields(2)])


lemma foldl_write_styles_cong:
  "styles s = styles s' \<Longrightarrow>
     styles (foldl (write_plan br n t x) s ps) = styles (foldl (write_plan br n t x) s' ps)"
proof (induction ps arbitrary: s s')
  case Nil
  then show ?case by simp
next
  case (Cons q ps)
  have "styles (write_plan br n t x s q) = styles (write_plan br n t x s' q)"
    using Cons.prems by (simp add: write_plan_def set_style_def split: option.splits)
  from Cons.IH [OF this] show ?case by simp
qed

lemma shift_fields:
  "styles (shift n s) = styles s"
  "frames (shift n s) = frames s"
  "fresh (shift n s) = fresh s"
  "queue_of (shift n s) m = (if m = n then tl (queue_of s n) else queue_of s m)"
  "events (shift n s) = (case queue_of s n of [] \<Rightarrow> [] | e # _ \<Rightarrow> [Shifted n (eid e)]) @ events s"
  by (auto simp: shift_def record_event_def split: list.splits)

lemma record_event_fields [simp]:
  "styles (record_event ev s) = styles s"
  "queues (record_event ev s) = queues s"
  "frames (record_event ev s) = frames s"
  "fresh (record_event ev s) = fresh s"
  "events (record_event ev s) = ev # events s"
  "queue_of (record_event ev s) = queue_of s"
  by (simp_all add: record_event_def)

lemma raf_fields [simp]:
  "styles (requestAnimationFrame c s) = styles s"
  "queues (requestAnimationFrame c s) = queues s"
  "frames (requestAnimationFrame c s) = frames s @ [c]"
  "fresh (requestAnimationFrame c s) = fresh s"
  "events (requestAnimationFrame c s) = events s"
  "queue_of (requestAnimationFrame c s) = queue_of s"
  by (simp_all add: requestAnimationFrame_def)

lemma foldl_write_queue_of [simp]:
  "queue_of (foldl (write_plan br n t x) s ps) = queue_of s"
  by (rule queue_of_cong) simp

lemma invoke_queue_of [simp]: "queue_of (invoke br pnow n e s) = queue_of s"
  by (rule queue_of_cong) (simp add: invoke_fields)


lemma step_running:
  "js_lt (progress now (startTime c) (duration (s_req c))) (Fin 1) \<Longrightarrow>
     step br now pnow s c = requestAnimationFrame c (written br now s c)"
  by (simp add: step_def)

lemma step_done:
  "\<not> js_lt (progress now (startTime c) (duration (s_req c))) (Fin 1) \<Longrightarrow>
     step br now pnow s c = promote br pnow (s_node c) (shift (s_node c) (called c (written br now s c)))"
  by (simp add: step_def)

lemma written_fields:
  "queues (written br now s c) = queues s"
  "queue_of (written br now s c) = queue_of s"
  "frames (written br now s c) = frames s"
  "fresh (written br now s c) = fresh s"
  "events (written br now s c) =
     Stepped (s_node c) (s_id c) (progress now (startTime c) (duration (s_req c))) # events s"
  by (simp_all add: written_def Let_def)

lemma written_styles:
  "styles (written br now s c) =
     styles (foldl (write_plan br (s_node c) (progress now (startTime c) (duration (s_req c)))
        (easing (s_req c) (progress now (startTime c) (duration (s_req c))))) s (plans c))"
  unfolding written_def Let_def
  by (rule foldl_write_styles_cong) simp

lemma called_fields:
  "styles (called c s) = styles s"
  "queues (called c s) = queues s"
  "queue_of (called c s) = queue_of s"
  "frames (called c s) = frames s"
  "fresh (called c s) = fresh s"
  "events (called c s) =
     (case callback (s_req c) of None \<Rightarrow> [] | Some f \<Rightarrow> [Called (s_node c) (s_id c) f]) @ events s"
  by (simp_all add: called_def split: option.splits)

lemma promote_fields:
  "styles (promote br pnow n s) = styles s"
  "queue_of (promote br pnow n s) = queue_of s"
  "fresh (promote br pnow n s) = fresh s"
  "frames (promote br pnow n s) =
     frames s @ (case queue_of s n of [] \<Rightarrow> [] | e # _ \<Rightarrow> [stepper_of br pnow (styles s) n e])"
  "events (promote br pnow n s) =
     (case queue_of s n of [] \<Rightarrow> [] | e # _ \<Rightarrow> [Invoked n (eid e)]) @ events s"
  by (simp_all add: promote_def invoke_fields split: list.splits)

lemma step_styles: "styles (step br now pnow s c) = styles (written br now s c)"
  by (simp add: step_def promote_fields shift_fields called_fields)

lemma step_fresh: "fresh (step br now pnow s c) = fresh s"
  by (simp add: step_def promote_fields shift_fields called_fields written_fields)

lemma step_queue_of:
  "queue_of (step br now pnow s c) m =
     (if \<not> js_lt (progress now (startTime c) (duration (s_req c))) (Fin 1) \<and> m = s_node c
      then tl (queue_of s m) else queue_of s m)"
  by (simp add: step_def promote_fields shift_fields called_fields written_fields)

lemma step_frames:
  "frames (step br now pnow s c) =
     frames s @
     (if js_lt (progress now (startTime c) (duration (s_req c))) (Fin 1) then [c]
      else case tl (queue_of s (s_node c)) of
             [] \<Rightarrow> []
           | e # _ \<Rightarrow> [stepper_of br pnow (styles (written br now s c)) (s_node c) e])"
  by (simp add: step_def promote_fields shift_fields called_fields written_fields split: list.split)

lemma step_events:
  "events (step br now pnow s c) =
     (if js_lt (progress now (startTime c) (duration (s_req c))) (Fin 1) then []
      else (case tl (queue_of s (s_node c)) of [] \<Rightarrow> [] | e # _ \<Rightarrow> [Invoked (s_node c) (eid e)])
         @ (case queue_of s (s_node c) of [] \<Rightarrow> [] | e # _ \<Rightarrow> [Shifted (s_node c) (eid e)])
         @ (case callback (s_req c) of None \<Rightarrow> [] | Some f \<Rightarrow> [Called (s_node c) (s_id c) f]))
     @ Stepped (s_node c) (s_id c) (progress now (startTime c) (duration (s_req c))) # events s"
  by (simp add: step_def promote_fields shift_fields called_fields written_fields)


section \<open>Classification and interpolation\<close>

lemma blend_Fin: "blend (Fin a) (Fin b) (Fin y) = Fin (a + (b - a) * y)"
  by (simp add: blend_def js_sub_def)

lemma many1_split:
  assumes "many1 P s = Some (r, t)"
  shows "s = r @ t" "r \<noteq> []" "list_all P r" "t = [] \<or> \<not> P (hd t)"
proof -
  have r: "r = takeWhile P s" and t: "t = dropWhile P s" and ne: "takeWhile P s \<noteq> []"
    using assms by (auto simp: many1_def split: list.splits)
  show "s = r @ t" by (simp add: r t)
  show "r \<noteq> []" using ne r by simp
  show "list_all P r" unfolding r list_all_iff by (auto dest: set_takeWhileD)
  show "t = [] \<or> \<not> P (hd t)"
  proof (cases "dropWhile P s = []")
    case True
    then show ?thesis by (simp add: t)
  next
    case False
    then show ?thesis unfolding t by (simp add: hd_dropWhile)
  qed
qed

lemma unit_suffix_append:
  assumes "list_all is_unit_char u" and "num \<noteq> []" and "is_digit (last num)"
  shows "unit_suffix (num @ u) = u"
proof -
  let ?P = "\<lambda>c. is_lower c \<or> is_upper c \<or> c = CHR ''%''"
  have u: "\<forall>c\<in>set (rev u). ?P c"
    using assms(1) by (auto simp: list_all_iff is_unit_char_def)
  have "\<not> ?P (last num)"
    using assms(3) by (auto simp: is_digit_def is_lower_def is_upper_def)
  then have "\<not> ?P (hd (rev num))" using assms(2) by (simp add: hd_rev)
  then have "takeWhile ?P (rev num) = []" using assms(2) by (cases "rev num") simp_all
  moreover have "takeWhile ?P (rev u @ rev num) = rev u @ takeWhile ?P (rev num)"
    using u by (intro takeWhile_append2) simp
  ultimately have "takeWhile ?P (rev u @ rev num) = rev u" by simp
  then show ?thesis by (simp add: unit_suffix_def)
qed

text \<open>
  A value that matches the numeric pattern is a number text, which ends in a digit,
  followed by its unit; \<open>unit_suffix\<close> returns that unit.
\<close>

lemma numeric_pattern_unit:
  assumes "numeric_pattern s"
  shows "\<exists>num. s = num @ unit_suffix s \<and> num \<noteq> [] \<and> is_digit (last num)
           \<and> list_all is_unit_char (unit_suffix s)"
proof -
  obtain ds t where m: "many1 is_digit (opt_minus s) = Some (ds, t)"
    and u: "list_all is_unit_char (opt_fraction t)"
    using assms by (auto simp: numeric_pattern_def split: option.splits)
  have "\<exists>sg. s = sg @ opt_minus s"
  proof (cases s)
    case Nil
    then show ?thesis by (simp add: opt_minus_def)
  next
    case (Cons c cs)
    show ?thesis
    proof (cases "c = CHR ''-''")
      case True
      then have "s = [c] @ opt_minus s" using Cons by (simp add: opt_minus_def)
      then show ?thesis by blast
    next
      case False
      then have "s = [] @ opt_minus s" using Cons by (simp add: opt_minus_def)
      then show ?thesis by blast
    qed
  qed
  then obtain sg where sg: "s = sg @ opt_minus s" by blast
  have ds: "opt_minus s = ds @ t" "ds \<noteq> []" "list_all is_digit ds"
    using many1_split [OF m] by blast+
  have "\<exists>mid. t = mid @ opt_fraction t \<and> (mid = [] \<or> is_digit (last mid))"
  proof (cases "lit ''.'' t")
    case None
    then show ?thesis by (simp add: opt_fraction_def)
  next
    case (Some t')
    then have t: "t = CHR ''.'' # t'" by (cases t) (auto simp: lit_def split: if_splits)
    show ?thesis
    proof (cases "many1 is_digit t'")
      case None
      then show ?thesis using Some by (simp add: opt_fraction_def)
    next
      case (Some a)
      obtain fs r where a: "a = (fs, r)" by (cases a)
      have f: "t' = fs @ r" "fs \<noteq> []" "list_all is_digit fs"
        using many1_split [OF Some [unfolded a]] by blast+
      have "opt_fraction t = r" using \<open>lit ''.'' t = Some t'\<close> Some a by (simp add: opt_fraction_def)
      moreover have "is_digit (last (CHR ''.'' # fs))"
        using f(2,3) by (simp add: list_all_iff)
      ultimately show ?thesis using t f(1) by (intro exI [of _ "CHR ''.'' # fs"]) simp
    qed
  qed
  then obtain mid where mid: "t = mid @ opt_fraction t" "mid = [] \<or> is_digit (last mid)" by blast
  let ?num = "sg @ ds @ mid"
  have "is_digit (last ds)" using ds(2,3) by (simp add: list_all_iff)
  then have "is_digit (last (ds @ mid))" using mid(2) by (cases "mid = []") auto
  then have num: "?num \<noteq> []" "is_digit (last ?num)"
    using ds(2) by simp_all
  have s: "s = ?num @ opt_fraction t" using sg ds(1) mid(1) by simp
  have "unit_suffix s = opt_fraction t"
    using unit_suffix_append [OF u num] s by simp
  then show ?thesis using s num u by (intro exI [of _ ?num]) simp
qed

text \<open>
  C4. For a current value and a destination value (the destination as the loop reads it
  from the request, see \<open>build_plans\<close>), the classifier resolves both as colours first and
  returns a colour plan exactly when both resolve; otherwise, when both match the numeric
  pattern, it returns a numeric plan whose unit is the suffix of the current value (the
  unit of the matched text, as shown above); otherwise it returns an opaque plan that
  carries the destination string.
\<close>

theorem classify_cases:
  "classify cv cur dest =
     (if parseColor cv cur \<noteq> None \<and> parseColor cv dest \<noteq> None
      then ColorPlan (the (parseColor cv cur)) (the (parseColor cv dest))
      else if numeric_pattern dest \<and> numeric_pattern cur
      then NumericPlan (parseFloat cur) (parseFloat dest) (unit_suffix cur)
      else OpaquePlan dest)"
  by (auto simp: classify_def Let_def split: option.splits)

lemma classify_unit_from_current:
  "classify echo_canvas ''10px'' ''5em'' = NumericPlan (Fin 10) (Fin 5) ''px''"
  by code_simp

text \<open>
  C3. After a step, a property whose plan is a colour plan holds the text
  \<open>rgb(r, g, b, a)\<close> of the blended channels, the first three rounded and alpha not; a
  property with a numeric plan holds the unrounded blend followed by the stored unit; a
  property with an opaque plan holds the destination string if the raw progress is 1 and
  is left as it was otherwise, whatever the eased progress is. On finite numbers the
  blend is \<open>start + (end - start) * eased\<close> and rounding is to the nearest integer.
\<close>

theorem step_interpolates:
  assumes "distinct (map fst (plans c))" and "(p, pl) \<in> set (plans c)"
  shows "let t = progress now (startTime c) (duration (s_req c));
             x = easing (s_req c) t;
             str = numberToString br;
             after = styles (step br now pnow s c) (s_node c) p
         in (\<forall>s0 s1 s2 s3 e0 e1 e2 e3. pl = ColorPlan (s0, s1, s2, s3) (e0, e1, e2, e3) \<longrightarrow>
               after = Some (''rgb('' @ str (js_round (blend s0 e0 x)) @ '', ''
                               @ str (js_round (blend s1 e1 x)) @ '', ''
                               @ str (js_round (blend s2 e2 x)) @ '', ''
                               @ str (blend s3 e3 x) @ '')''))
          \<and> (\<forall>a b u. pl = NumericPlan a b u \<longrightarrow> after = Some (str (blend a b x) @ u))
          \<and> (\<forall>v. pl = OpaquePlan v \<longrightarrow>
               after = (if t = Fin 1 then Some v else styles s (s_node c) p))
          \<and> (\<forall>a b y. blend (Fin a) (Fin b) (Fin y) = Fin (a + (b - a) * y))
          \<and> (\<forall>y. js_round (Fin y) = Fin (of_int \<lfloor>y + 1 / 2\<rfloor>))"
  using foldl_write_at [OF assms, of br "s_node c"
      "progress now (startTime c) (duration (s_req c))"
      "easing (s_req c) (progress now (startTime c) (duration (s_req c)))" s]
  by (auto simp: Let_def step_styles written_styles blend_Fin)


lemma demo_plans:
  "plans demo_stepper =
     [(''left'', NumericPlan (Fin 0) (Fin 100) ''px''),
      (''color'', ColorPlan (Fin 255, Fin 0, Fin 0, Fin 1) (Fin 0, Fin 0, Fin 255, Fin 1)),
      (''display'', OpaquePlan ''block'')]"
  by code_simp

lemma demo_stepper_fields:
  "s_node demo_stepper = 0" "s_id demo_stepper = 0" "s_req demo_stepper = demo_request"
  "startTime demo_stepper = 0"
  by (simp_all add: demo_stepper_def stepper_of_def demo_entry_def)

lemma demo_half: "linear (progress 200 0 (Fin 400)) = Fin (1 / 2)"
  by (simp add: linear_def progress_def js_min_def)

lemma demo_browser_fields:
  "surface demo_browser = echo_canvas" "numberToString demo_browser = number_text"
  by (simp_all add: demo_browser_def)

lemma initial_fields:
  "styles (initial st) = st" "queue_of (initial st) n = []" "frames (initial st) = []"
  "fresh (initial st) = 0" "events (initial st) = []"
  by (simp_all add: initial_def queue_of_def)

lemma demo_texts:
  "number_text (Fin 128) = ''128''" "number_text (Fin 0) = ''0''" "number_text (Fin 1) = ''1''"
  "number_text (Fin 50) = ''50''"
  by code_simp+

theorem step_interpolates_witness:
  "distinct (map fst (plans demo_stepper))
   \<and> (''color'', ColorPlan (Fin 255, Fin 0, Fin 0, Fin 1) (Fin 0, Fin 0, Fin 255, Fin 1)) \<in> set (plans demo_stepper)
   \<and> styles (step demo_browser 200 200 demo_started demo_stepper) 0 ''color'' = Some ''rgb(128, 0, 128, 1)''"
proof -
  have h1: "distinct (map fst (plans demo_stepper))"
    by (simp add: demo_plans)
  have h2: "(''color'', ColorPlan (Fin 255, Fin 0, Fin 0, Fin 1) (Fin 0, Fin 0, Fin 255, Fin 1)) \<in> set (plans demo_stepper)"
    by (simp add: demo_plans)
  show ?thesis
    using h1 h2 step_interpolates [OF h1 h2, of 200 demo_browser 200 demo_started]
    by (simp add: Let_def demo_stepper_fields demo_request_def demo_half demo_browser_fields
        blend_Fin demo_texts del: number_text.simps)
qed

section \<open>Enqueueing\<close>

text \<open>
  C8, as amended. A call of \<open>animate\<close> on a node appends the request to the node's queue
  and writes no style. If the queue was empty, the new entry is invoked within the call:
  its start time and plans are captured and its first step is registered for the next
  animation frame. Otherwise nothing but the push happens: the entry is not invoked and
  no step of it is registered.
\<close>

theorem animate_el_enqueues:
  "let s' = animate_el br pnow rq s n; e = \<lparr>eid = fresh s, req = rq\<rparr>
   in queue_of s' n = queue_of s n @ [e] \<and> styles s' = styles s \<and>
      (if queue_of s n = []
       then frames s' = frames s @ [stepper_of br pnow (styles s) n e]
          \<and> events s' = Invoked n (fresh s) # Pushed n (fresh s) (callback rq) # events s
       else frames s' = frames s
          \<and> events s' = Pushed n (fresh s) (callback rq) # events s)"
  by (simp add: Let_def animate_el_fields)


lemma demo_started_fields:
  "styles demo_started = demo_styles"
  "events demo_started = [Invoked 0 0, Pushed 0 0 (Some 7)]"
  "frames demo_started = [demo_stepper]"
  "queue_of demo_started 0 = [demo_entry]"
  by (simp_all add: demo_started_def animate_el_fields initial_fields demo_stepper_def
      demo_entry_def demo_request_def)

text \<open>
  C8 as stated promises a first style write without a frame of delay. The call returns
  with the style untouched and no step evaluated; the first write is made by the first
  frame.
\<close>

theorem animate_el_no_write_counterexample:
  "styles demo_started 0 ''left'' = Some ''0px''
   \<and> events demo_started = [Invoked 0 0, Pushed 0 0 (Some 7)]
   \<and> frames demo_started = [demo_stepper]
   \<and> styles (frame demo_browser 16 16 demo_started) 0 ''left'' = Some ''4px''"
proof -
  have "styles (frame demo_browser 16 16 demo_started) 0 ''left'' = Some ''4px''"
    by code_simp
  then show ?thesis by (simp add: demo_started_fields demo_styles_def)
qed

section \<open>Durations that are not positive\<close>

lemma progress_zero_duration: "start < now \<Longrightarrow> progress now start (Fin 0) = Fin 1"
  by (simp add: progress_def js_min_def signed_inf_def)

text \<open>
  C9, as amended. For a request of duration 0 whose step runs at a time stamp later than
  its start, the raw progress is 1 and the step completes: the callback, if there is one,
  is called, the entry leaves the queue and the next entry, if there is one, is invoked.
\<close>

theorem zero_duration_completes:
  assumes "duration (s_req c) = Fin 0" and "startTime c < now"
    and "queue_of s (s_node c) = e # q"
  shows "progress now (startTime c) (duration (s_req c)) = Fin 1
       \<and> queue_of (step br now pnow s c) (s_node c) = q
       \<and> events (step br now pnow s c) =
           (case q of [] \<Rightarrow> [] | e' # _ \<Rightarrow> [Invoked (s_node c) (eid e')])
           @ Shifted (s_node c) (eid e)
           # (case callback (s_req c) of None \<Rightarrow> [] | Some f \<Rightarrow> [Called (s_node c) (s_id c) f])
           @ Stepped (s_node c) (s_id c) (Fin 1) # events s
       \<and> frames (step br now pnow s c) =
           frames s @ (case q of [] \<Rightarrow> []
                       | e' # _ \<Rightarrow> [stepper_of br pnow (styles (written br now s c)) (s_node c) e'])"
  using assms by (simp add: progress_zero_duration step_queue_of step_events step_frames)


text \<open>
  C9 as stated covers negative durations. The progress has no lower clamp: with duration
  -100 a frame 16 ms after the start computes -0.16, calls no callback, removes nothing
  and registers the step again.
\<close>

theorem negative_duration_counterexample:
  "events (run demo_browser demo_styles [Animate 0 [0] backwards_request, Frame 16 16])
     = [Stepped 0 0 (Fin (- (4 / 25))), Invoked 0 0, Pushed 0 0 (Some 7)]
   \<and> map eid (queue_of (run demo_browser demo_styles [Animate 0 [0] backwards_request, Frame 16 16]) 0) = [0]
   \<and> map s_id (frames (run demo_browser demo_styles [Animate 0 [0] backwards_request, Frame 16 16])) = [0]"
  by code_simp


text \<open>With a negative duration, every step after the start registers itself again.\<close>

lemma negative_duration_keeps_running:
  assumes "duration (s_req c) = Fin d" and "d < 0" and "startTime c < now"
  shows "step br now pnow s c = requestAnimationFrame c (written br now s c)"
proof -
  have "js_lt (progress now (startTime c) (duration (s_req c))) (Fin 1)"
    using assms by (simp add: progress_def js_min_def)
  then show ?thesis by (rule step_running)
qed

theorem zero_duration_completes_witness:
  "duration (s_req instant_stepper) = Fin 0 \<and> startTime instant_stepper < 16
   \<and> queue_of instant_started (s_node instant_stepper) = [\<lparr>eid = 0, req = instant_request\<rparr>]
   \<and> progress 16 (startTime instant_stepper) (duration (s_req instant_stepper)) = Fin 1
   \<and> queue_of (step demo_browser 16 16 instant_started instant_stepper) 0 = []
   \<and> events (step demo_browser 16 16 instant_started instant_stepper)
       = [Shifted 0 0, Called 0 0 7, Stepped 0 0 (Fin 1), Invoked 0 0, Pushed 0 0 (Some 7)]"
proof -
  have h1: "duration (s_req instant_stepper) = Fin 0"
    by (simp add: instant_stepper_def stepper_of_def instant_request_def)
  have h2: "startTime instant_stepper < 16"
    by (simp add: instant_stepper_def stepper_of_def)
  have h3: "queue_of instant_started (s_node instant_stepper) = \<lparr>eid = 0, req = instant_request\<rparr> # []"
    by (simp add: instant_started_def instant_stepper_def stepper_of_def animate_el_fields
        initial_fields)
  have ev: "events instant_started = [Invoked 0 0, Pushed 0 0 (Some 7)]"
    by (simp add: instant_started_def animate_el_fields initial_fields instant_request_def
        demo_request_def)
  show ?thesis
    using h1 h2 h3 zero_duration_completes [OF h1 h2 h3, of demo_browser 16] ev
    by (simp add: instant_stepper_def stepper_of_def instant_request_def demo_request_def)
qed


section \<open>Orderly histories\<close>

lemma orderly_append: "orderly (a @ b) \<Longrightarrow> orderly b"
  by (induction a) simp_all

lemma orderly_at: "orderly (a @ e # b) \<Longrightarrow> admissible e b"
  by (induction a) simp_all

lemma older_push:
  assumes "orderly l" and "l = a @ e # b" and "Pushed n k cb \<in> set l"
    and "k \<le> ev_id e" and "e \<noteq> Pushed n k cb"
  shows "Pushed n k cb \<in> set b"
proof (rule ccontr)
  assume "Pushed n k cb \<notin> set b"
  then have "Pushed n k cb \<in> set a" using assms(2,3,5) by auto
  then obtain a1 a2 where a: "a = a1 @ Pushed n k cb # a2" by (auto dest: split_list)
  have "orderly (a1 @ Pushed n k cb # (a2 @ e # b))" using assms(1,2) a by simp
  then have "admissible (Pushed n k cb) (a2 @ e # b)" by (rule orderly_at)
  then have "ev_id e < k" by simp
  then show False using assms(4) by simp
qed

lemma called_once: "orderly l \<Longrightarrow> count_list l (Called n k f) \<le> 1"
proof (induction l)
  case Nil
  then show ?case by simp
next
  case (Cons e l)
  show ?case
  proof (cases "e = Called n k f")
    case True
    then have "Called n k f \<notin> set l" using Cons.prems by simp
    then have "count_list l (Called n k f) = 0" by (simp add: count_list_0_iff)
    then show ?thesis using True by simp
  next
    case False
    then show ?thesis using Cons by simp
  qed
qed

lemma invoked_after_shift:
  assumes "orderly l" and "l = x @ Invoked n k2 # y" and "Pushed n k1 cb1 \<in> set l" and "k1 < k2"
  shows "Shifted n k1 \<in> set y"
proof -
  have "Pushed n k1 cb1 \<in> set y"
    using older_push [OF assms(1,2,3)] assms(4) by simp
  moreover have "admissible (Invoked n k2) y" using assms(1,2) orderly_at by blast
  ultimately show ?thesis using assms(4) by auto
qed

lemma fifo_in_orderly_history:
  assumes ord: "orderly l"
    and step: "l = post @ Stepped n k2 t # pre"
    and push2: "l = a @ Pushed n k2 cb2 # b"
    and push1: "Pushed n k1 cb1 \<in> set b"
  shows "Shifted n k1 \<in> set pre
       \<and> (\<forall>f. cb1 = Some f \<longrightarrow> Called n k1 f \<in> set pre \<and> count_list l (Called n k1 f) = 1)
       \<and> (\<forall>x y. l = x @ Invoked n k2 # y \<longrightarrow> Shifted n k1 \<in> set y)"
proof -
  have "admissible (Pushed n k2 cb2) b" using ord push2 orderly_at by blast
  then have lt: "k1 < k2" using push1 by force
  have in_l: "Pushed n k1 cb1 \<in> set l" using push1 push2 by simp
  have "admissible (Stepped n k2 t) pre" using ord step orderly_at by blast
  then have "Invoked n k2 \<in> set pre" by simp
  then obtain x y where pre: "pre = x @ Invoked n k2 # y" by (auto dest: split_list)
  have l1: "l = (post @ Stepped n k2 t # x) @ Invoked n k2 # y" using step pre by simp
  have sh: "Shifted n k1 \<in> set y" by (rule invoked_after_shift [OF ord l1 in_l lt])
  then obtain u v where y: "y = u @ Shifted n k1 # v" by (auto dest: split_list)
  have l2: "l = (post @ Stepped n k2 t # x @ Invoked n k2 # u) @ Shifted n k1 # v"
    using l1 y by simp
  have pv: "Pushed n k1 cb1 \<in> set v" using older_push [OF ord l2 in_l] by simp
  have "admissible (Shifted n k1) v" using ord l2 orderly_at by blast
  then have cv: "\<forall>f. cb1 = Some f \<longrightarrow> Called n k1 f \<in> set v" using pv by auto
  have c1: "\<forall>f. cb1 = Some f \<longrightarrow> Called n k1 f \<in> set pre" using cv pre y by auto
  have c2: "\<forall>f. cb1 = Some f \<longrightarrow> count_list l (Called n k1 f) = 1"
  proof (intro allI impI)
    fix f assume "cb1 = Some f"
    then have "Called n k1 f \<in> set l" using c1 step by auto
    then have "count_list l (Called n k1 f) \<noteq> 0" by (simp add: count_list_0_iff)
    moreover have "count_list l (Called n k1 f) \<le> 1" by (rule called_once [OF ord])
    ultimately show "count_list l (Called n k1 f) = 1" by simp
  qed
  have c3: "\<forall>x y. l = x @ Invoked n k2 # y \<longrightarrow> Shifted n k1 \<in> set y"
    using invoked_after_shift [OF ord _ in_l lt] by blast
  show ?thesis using sh pre c1 c2 c3 by auto
qed


section \<open>The invariants hold in every reachable state\<close>

lemma stepper_of_fields [simp]:
  "s_node (stepper_of br pnow st n e) = n"
  "s_id (stepper_of br pnow st n e) = eid e"
  "s_req (stepper_of br pnow st n e) = req e"
  "startTime (stepper_of br pnow st n e) = pnow"
  "map fst (plans (stepper_of br pnow st n e)) = map fst (properties (req e))"
  by (simp_all add: stepper_of_def build_plans_def case_prod_beta comp_def)

lemma animate_el_heads:
  assumes "heads_active cs s"
  shows "heads_active (cs @ animate_el_adds br pnow rq s n) (animate_el br pnow rq s n)"
proof (cases "queue_of s n = []")
  case True
  have "n \<notin> s_node ` set cs"
  proof
    assume "n \<in> s_node ` set cs"
    then obtain c where "c \<in> set cs" "s_node c = n" by auto
    then show False using assms True by (auto simp: heads_active_def)
  qed
  then show ?thesis
    using assms True
    by (auto simp: heads_active_def animate_el_adds_def animate_el_fields)
next
  case False
  then show ?thesis
    using assms
    by (fastforce simp: heads_active_def animate_el_adds_def animate_el_fields)
qed

lemma animate_el_ordered:
  assumes "queues_ordered s"
  shows "queues_ordered (animate_el br pnow rq s n)"
  using assms
  by (auto simp: queues_ordered_def animate_el_fields sorted_wrt_append less_Suc_eq)



lemma log_linked_events:
  "log_linked cs s \<Longrightarrow> \<forall>ev\<in>set (events s). ev_id ev < fresh s"
  unfolding log_linked_def by (rule conjunct1)

lemma log_linked_queues:
  "log_linked cs s \<Longrightarrow>
     \<forall>n. \<forall>e\<in>set (queue_of s n).
        Pushed n (eid e) (callback (req e)) \<in> set (events s) \<and>
        (\<forall>m cb. Pushed m (eid e) cb \<in> set (events s) \<longrightarrow> m = n \<and> cb = callback (req e)) \<and>
        (\<forall>f. Called n (eid e) f \<notin> set (events s))"
  unfolding log_linked_def by (rule conjunct1 [OF conjunct2])

lemma log_linked_pushed:
  "log_linked cs s \<Longrightarrow>
     \<forall>n j cb. Pushed n j cb \<in> set (events s) \<longrightarrow>
        j \<in> eid ` set (queue_of s n) \<or> Shifted n j \<in> set (events s)"
  unfolding log_linked_def by (rule conjunct1 [OF conjunct2 [OF conjunct2]])

lemma log_linked_steppers:
  "log_linked cs s \<Longrightarrow> \<forall>c\<in>set cs. Invoked (s_node c) (s_id c) \<in> set (events s)"
  unfolding log_linked_def by (rule conjunct2 [OF conjunct2 [OF conjunct2]])

lemma log_linkedD1: "log_linked cs s \<Longrightarrow> ev \<in> set (events s) \<Longrightarrow> ev_id ev < fresh s"
  using log_linked_events by (rule bspec)

lemma log_linked_entry:
  assumes "log_linked cs s" and "e \<in> set (queue_of s n)"
  shows "Pushed n (eid e) (callback (req e)) \<in> set (events s) \<and>
        (\<forall>m cb. Pushed m (eid e) cb \<in> set (events s) \<longrightarrow> m = n \<and> cb = callback (req e)) \<and>
        (\<forall>f. Called n (eid e) f \<notin> set (events s))"
  using spec [OF log_linked_queues [OF assms(1)], of n] assms(2) by (rule bspec)

lemma log_linkedD2:
  "log_linked cs s \<Longrightarrow> e \<in> set (queue_of s n) \<Longrightarrow>
     Pushed n (eid e) (callback (req e)) \<in> set (events s)"
  by (rule conjunct1 [OF log_linked_entry])

lemma log_linkedD2u:
  assumes "log_linked cs s" and "e \<in> set (queue_of s n)" and "Pushed m (eid e) cb \<in> set (events s)"
  shows "m = n \<and> cb = callback (req e)"
proof -
  have "\<forall>m cb. Pushed m (eid e) cb \<in> set (events s) \<longrightarrow> m = n \<and> cb = callback (req e)"
    by (rule conjunct1 [OF conjunct2 [OF log_linked_entry [OF assms(1,2)]]])
  then have "Pushed m (eid e) cb \<in> set (events s) \<longrightarrow> m = n \<and> cb = callback (req e)"
    by (elim allE)
  then show ?thesis using assms(3) by (rule mp)
qed

lemma log_linkedD2c:
  assumes "log_linked cs s" and "e \<in> set (queue_of s n)"
  shows "Called n (eid e) f \<notin> set (events s)"
proof -
  have "\<forall>f. Called n (eid e) f \<notin> set (events s)"
    by (rule conjunct2 [OF conjunct2 [OF log_linked_entry [OF assms(1,2)]]])
  then show ?thesis by (rule spec)
qed

lemma log_linkedD3:
  assumes "log_linked cs s" and "Pushed n j cb \<in> set (events s)"
  shows "j \<in> eid ` set (queue_of s n) \<or> Shifted n j \<in> set (events s)"
proof -
  have "Pushed n j cb \<in> set (events s) \<longrightarrow>
        j \<in> eid ` set (queue_of s n) \<or> Shifted n j \<in> set (events s)"
    using log_linked_pushed [OF assms(1)] by (elim allE)
  then show ?thesis using assms(2) by (rule mp)
qed

lemma log_linkedD4:
  "log_linked cs s \<Longrightarrow> c \<in> set cs \<Longrightarrow> Invoked (s_node c) (s_id c) \<in> set (events s)"
  using log_linked_steppers by (rule bspec)

lemma log_linkedI:
  assumes "\<And>ev. ev \<in> set (events s) \<Longrightarrow> ev_id ev < fresh s"
    and "\<And>n e. e \<in> set (queue_of s n) \<Longrightarrow> Pushed n (eid e) (callback (req e)) \<in> set (events s)"
    and "\<And>n e m cb. e \<in> set (queue_of s n) \<Longrightarrow> Pushed m (eid e) cb \<in> set (events s) \<Longrightarrow>
           m = n \<and> cb = callback (req e)"
    and "\<And>n e f. e \<in> set (queue_of s n) \<Longrightarrow> Called n (eid e) f \<notin> set (events s)"
    and "\<And>n j cb. Pushed n j cb \<in> set (events s) \<Longrightarrow>
           j \<in> eid ` set (queue_of s n) \<or> Shifted n j \<in> set (events s)"
    and "\<And>c. c \<in> set cs \<Longrightarrow> Invoked (s_node c) (s_id c) \<in> set (events s)"
  shows "log_linked cs s"
  unfolding log_linked_def
proof (intro conjI ballI allI impI)
  fix ev assume "ev \<in> set (events s)" then show "ev_id ev < fresh s" by (rule assms(1))
next
  fix n e assume "e \<in> set (queue_of s n)"
  then show "Pushed n (eid e) (callback (req e)) \<in> set (events s)" by (rule assms(2))
next
  fix n e m cb assume "e \<in> set (queue_of s n)" "Pushed m (eid e) cb \<in> set (events s)"
  then show "m = n" using assms(3) by blast
next
  fix n e m cb assume "e \<in> set (queue_of s n)" "Pushed m (eid e) cb \<in> set (events s)"
  then show "cb = callback (req e)" using assms(3) by blast
next
  fix n e f assume "e \<in> set (queue_of s n)"
  then show "Called n (eid e) f \<notin> set (events s)" by (rule assms(4))
next
  fix n j cb assume "Pushed n j cb \<in> set (events s)"
  then show "j \<in> eid ` set (queue_of s n) \<or> Shifted n j \<in> set (events s)" by (rule assms(5))
next
  fix c assume "c \<in> set cs"
  then show "Invoked (s_node c) (s_id c) \<in> set (events s)" by (rule assms(6))
qed

lemma animate_el_event_iff:
  "ev \<in> set (events (animate_el br pnow rq s n)) \<longleftrightarrow>
     (queue_of s n = [] \<and> ev = Invoked n (fresh s)) \<or> ev = Pushed n (fresh s) (callback rq)
     \<or> ev \<in> set (events s)"
  by (auto simp: animate_el_fields)

lemma animate_el_queue_iff:
  "e \<in> set (queue_of (animate_el br pnow rq s n) m) \<longleftrightarrow>
     e \<in> set (queue_of s m) \<or> (m = n \<and> e = \<lparr>eid = fresh s, req = rq\<rparr>)"
  by (auto simp: animate_el_fields)

lemma animate_el_orderly:
  assumes "log_linked cs s" and "orderly (events s)"
  shows "orderly (events (animate_el br pnow rq s n))"
proof -
  have p: "admissible (Pushed n (fresh s) (callback rq)) (events s)"
    using log_linkedD1 [OF assms(1)] by simp
  show ?thesis
  proof (cases "queue_of s n = []")
    case True
    have "Shifted n j \<in> set (events s)" if "Pushed n j cb \<in> set (events s)" for j cb
      using log_linkedD3 [OF assms(1) that] True by simp
    then have i: "admissible (Invoked n (fresh s)) (Pushed n (fresh s) (callback rq) # events s)"
      by auto
    have ev: "events (animate_el br pnow rq s n)
              = Invoked n (fresh s) # Pushed n (fresh s) (callback rq) # events s"
      using True by (simp add: animate_el_fields(5))
    show ?thesis unfolding ev using i p assms(2) by (simp only: orderly.simps simp_thms)
  next
    case False
    have ev: "events (animate_el br pnow rq s n) = Pushed n (fresh s) (callback rq) # events s"
      using False by (simp add: animate_el_fields(5))
    show ?thesis unfolding ev using p assms(2) by (simp only: orderly.simps simp_thms)
  qed
qed

lemma animate_el_linked:
  assumes "log_linked cs s" and "queues_ordered s"
  shows "log_linked (cs @ animate_el_adds br pnow rq s n) (animate_el br pnow rq s n)"
proof (rule log_linkedI)
  fix ev assume "ev \<in> set (events (animate_el br pnow rq s n))"
  then show "ev_id ev < fresh (animate_el br pnow rq s n)"
    unfolding animate_el_event_iff animate_el_fields
    using log_linkedD1 [OF assms(1), of ev] by auto
next
  fix m e assume "e \<in> set (queue_of (animate_el br pnow rq s n) m)"
  then show "Pushed m (eid e) (callback (req e)) \<in> set (events (animate_el br pnow rq s n))"
    unfolding animate_el_event_iff animate_el_queue_iff
    using log_linkedD2 [OF assms(1), of e m] by auto
next
  fix m e m' cb
  assume e: "e \<in> set (queue_of (animate_el br pnow rq s n) m)"
    and p: "Pushed m' (eid e) cb \<in> set (events (animate_el br pnow rq s n))"
  from e consider "e \<in> set (queue_of s m)" | "m = n" "e = \<lparr>eid = fresh s, req = rq\<rparr>"
    unfolding animate_el_queue_iff by blast
  then show "m' = m \<and> cb = callback (req e)"
  proof cases
    case 1
    then have "eid e < fresh s" using assms(2) by (auto simp: queues_ordered_def)
    then have "Pushed m' (eid e) cb \<in> set (events s)"
      using p unfolding animate_el_event_iff by auto
    then show ?thesis using log_linkedD2u [OF assms(1) 1] by blast
  next
    case 2
    have "Pushed m' (fresh s) cb \<notin> set (events s)"
      using log_linkedD1 [OF assms(1), of "Pushed m' (fresh s) cb"] by auto
    then show ?thesis using p 2 unfolding animate_el_event_iff by auto
  qed
next
  fix m e f
  assume e: "e \<in> set (queue_of (animate_el br pnow rq s n) m)"
  from e consider "e \<in> set (queue_of s m)" | "m = n" "e = \<lparr>eid = fresh s, req = rq\<rparr>"
    unfolding animate_el_queue_iff by blast
  then show "Called m (eid e) f \<notin> set (events (animate_el br pnow rq s n))"
  proof cases
    case 1
    then show ?thesis
      unfolding animate_el_event_iff using log_linkedD2c [OF assms(1) 1, of f] by auto
  next
    case 2
    have "Called n (fresh s) f \<notin> set (events s)"
      using log_linkedD1 [OF assms(1), of "Called n (fresh s) f"] by auto
    then show ?thesis using 2 unfolding animate_el_event_iff by auto
  qed
next
  fix m j cb assume "Pushed m j cb \<in> set (events (animate_el br pnow rq s n))"
  then consider "m = n" "j = fresh s" | "Pushed m j cb \<in> set (events s)"
    unfolding animate_el_event_iff by auto
  then show "j \<in> eid ` set (queue_of (animate_el br pnow rq s n) m)
           \<or> Shifted m j \<in> set (events (animate_el br pnow rq s n))"
  proof cases
    case 1
    then show ?thesis by (simp add: animate_el_fields)
  next
    case 2
    from log_linkedD3 [OF assms(1) 2] show ?thesis
      unfolding animate_el_event_iff by (auto simp: animate_el_fields)
  qed
next
  fix c assume "c \<in> set (cs @ animate_el_adds br pnow rq s n)"
  then consider "c \<in> set cs"
    | "queue_of s n = []" "c = stepper_of br pnow (styles s) n \<lparr>eid = fresh s, req = rq\<rparr>"
    by (auto simp: animate_el_adds_def split: if_splits)
  then show "Invoked (s_node c) (s_id c) \<in> set (events (animate_el br pnow rq s n))"
  proof cases
    case 1
    from log_linkedD4 [OF assms(1) 1] show ?thesis unfolding animate_el_event_iff by simp
  next
    case 2
    then show ?thesis unfolding animate_el_event_iff by simp
  qed
qed

lemma animate_el_consistent:
  assumes "consistent cs s"
  shows "consistent (cs @ animate_el_adds br pnow rq s n) (animate_el br pnow rq s n)"
proof -
  have h: "heads_active cs s" and q: "queues_ordered s" and l: "log_linked cs s"
    and ord: "orderly (events s)"
    using assms by (simp_all add: consistent_def)
  show ?thesis
    unfolding consistent_def
    using animate_el_heads [OF h] animate_el_ordered [OF q] animate_el_linked [OF l q]
      animate_el_orderly [OF l ord] by simp
qed


lemma heads_activeD:
  assumes "heads_active cs s" and "c \<in> set cs"
  obtains e q where "queue_of s (s_node c) = e # q" "s_id c = eid e" "s_req c = req e"
    "map fst (plans c) = map fst (properties (req e))"
proof -
  have "\<forall>c\<in>set cs. \<exists>e q. queue_of s (s_node c) = e # q \<and> s_id c = eid e \<and> s_req c = req e
        \<and> map fst (plans c) = map fst (properties (req e))"
    using assms(1) unfolding heads_active_def by (rule conjunct2)
  then have "\<exists>e q. queue_of s (s_node c) = e # q \<and> s_id c = eid e \<and> s_req c = req e
        \<and> map fst (plans c) = map fst (properties (req e))"
    using assms(2) by (rule bspec)
  then show ?thesis using that by blast
qed

lemma heads_active_distinct: "heads_active cs s \<Longrightarrow> distinct (map s_node cs)"
  unfolding heads_active_def by (rule conjunct1)

lemma step_heads:
  assumes "heads_active (c # rest) s"
  shows "heads_active (rest @ step_adds br now pnow s c) (step br now pnow s c)"
proof -
  let ?n = "s_node c"
  let ?s' = "step br now pnow s c"
  have d: "distinct (map s_node (c # rest))" by (rule heads_active_distinct [OF assms])
  then have notin: "?n \<notin> s_node ` set rest" and drest: "distinct (map s_node rest)" by auto
  have rest_ok: "\<exists>e q. queue_of ?s' (s_node c') = e # q \<and> s_id c' = eid e \<and> s_req c' = req e
        \<and> map fst (plans c') = map fst (properties (req e))" if "c' \<in> set rest" for c'
  proof -
    have "c' \<in> set (c # rest)" using that by simp
    from heads_activeD [OF assms this] obtain e q where
      "queue_of s (s_node c') = e # q" "s_id c' = eid e" "s_req c' = req e"
      "map fst (plans c') = map fst (properties (req e))" .
    moreover have "s_node c' \<noteq> ?n" using that notin by (metis imageI)
    ultimately show ?thesis by (simp add: step_queue_of)
  qed
  show ?thesis
  proof (cases "js_lt (progress now (startTime c) (duration (s_req c))) (Fin 1)")
    case True
    have adds: "step_adds br now pnow s c = [c]" using True by (simp add: step_adds_def)
    have "c \<in> set (c # rest)" by simp
    from heads_activeD [OF assms this] obtain e q where
      "queue_of s ?n = e # q" "s_id c = eid e" "s_req c = req e"
      "map fst (plans c) = map fst (properties (req e))" .
    then have c_ok: "\<exists>e q. queue_of ?s' ?n = e # q \<and> s_id c = eid e \<and> s_req c = req e
        \<and> map fst (plans c) = map fst (properties (req e))"
      using True by (simp add: step_queue_of)
    show ?thesis
      unfolding heads_active_def adds
      using d rest_ok c_ok by auto
  next
    case False
    show ?thesis
    proof (cases "tl (queue_of s ?n)")
      case Nil
      then have adds: "step_adds br now pnow s c = []" using False by (simp add: step_adds_def)
      show ?thesis unfolding heads_active_def adds using drest rest_ok by auto
    next
      case (Cons e' q')
      then have adds: "step_adds br now pnow s c
          = [stepper_of br pnow (styles (written br now s c)) ?n e']"
        using False by (simp add: step_adds_def)
      have q': "queue_of ?s' ?n = e' # q'" using False Cons by (simp add: step_queue_of)
      show ?thesis
        unfolding heads_active_def adds
        using drest notin rest_ok q' by auto
    qed
  qed
qed

lemma step_ordered:
  assumes "queues_ordered s"
  shows "queues_ordered (step br now pnow s c)"
proof -
  have "sorted_wrt (<) (map eid (tl (queue_of s n)))" for n
    using assms by (cases "queue_of s n") (auto simp: queues_ordered_def dest: spec [of _ n])
  moreover have "\<forall>e\<in>set (tl (queue_of s n)). eid e < fresh s" for n
    using assms by (cases "queue_of s n") (auto simp: queues_ordered_def dest: spec [of _ n])
  ultimately show ?thesis
    using assms by (simp add: queues_ordered_def step_queue_of step_fresh)
qed


lemma step_event_cases:
  assumes "ev \<in> set (events (step br now pnow s c))"
    and "queue_of s (s_node c) = e # q"
  shows "ev \<in> set (events s)
       \<or> ev = Stepped (s_node c) (s_id c) (progress now (startTime c) (duration (s_req c)))
       \<or> (\<not> js_lt (progress now (startTime c) (duration (s_req c))) (Fin 1) \<and>
           (ev = Shifted (s_node c) (eid e)
            \<or> (\<exists>f. callback (s_req c) = Some f \<and> ev = Called (s_node c) (s_id c) f)
            \<or> (\<exists>e' q'. q = e' # q' \<and> ev = Invoked (s_node c) (eid e'))))"
  using assms by (auto simp: step_events split: if_splits option.splits list.splits)

lemma step_events_mono: "set (events s) \<subseteq> set (events (step br now pnow s c))"
  by (auto simp: step_events)

lemma step_queue_subset: "set (queue_of (step br now pnow s c) m) \<subseteq> set (queue_of s m)"
  by (cases "queue_of s m") (auto simp: step_queue_of)


lemma step_done_events:
  assumes "\<not> js_lt (progress now (startTime c) (duration (s_req c))) (Fin 1)"
    and "queue_of s (s_node c) = e # q"
  shows "Shifted (s_node c) (eid e) \<in> set (events (step br now pnow s c))"
    and "q = e' # q' \<Longrightarrow> Invoked (s_node c) (eid e') \<in> set (events (step br now pnow s c))"
    and "callback (s_req c) = Some f \<Longrightarrow> Called (s_node c) (s_id c) f \<in> set (events (step br now pnow s c))"
  using assms by (auto simp: step_events)

lemma queues_orderedD:
  assumes "queues_ordered s" and "queue_of s n = e # q"
  shows "eid e < fresh s" and "\<forall>x\<in>set q. eid e < eid x \<and> eid x < fresh s"
    and "sorted_wrt (<) (map eid q)"
proof -
  have "sorted_wrt (<) (map eid (queue_of s n)) \<and> (\<forall>e\<in>set (queue_of s n). eid e < fresh s)"
    using assms(1) unfolding queues_ordered_def by (rule spec)
  then have "sorted_wrt (<) (map eid (e # q)) \<and> (\<forall>x\<in>set (e # q). eid x < fresh s)"
    using assms(2) by simp
  then show "eid e < fresh s" and "\<forall>x\<in>set q. eid e < eid x \<and> eid x < fresh s"
    and "sorted_wrt (<) (map eid q)"
    by auto
qed

lemma step_linked:
  assumes h: "heads_active (c # rest) s" and l: "log_linked (c # rest) s" and o: "queues_ordered s"
  shows "log_linked (rest @ step_adds br now pnow s c) (step br now pnow s c)"
proof -
  let ?n = "s_node c"
  let ?s' = "step br now pnow s c"
  let ?run = "js_lt (progress now (startTime c) (duration (s_req c))) (Fin 1)"
  have "c \<in> set (c # rest)" by simp
  from heads_activeD [OF h this] obtain e q where
    q: "queue_of s ?n = e # q" and sid: "s_id c = eid e" and rq: "s_req c = req e" by blast
  have e_in: "e \<in> set (queue_of s ?n)" using q by simp
  have lt: "eid e < fresh s" and above: "\<forall>x\<in>set q. eid e < eid x \<and> eid x < fresh s"
    using queues_orderedD [OF o q] by blast+
  show ?thesis
  proof (rule log_linkedI)
    fix ev assume "ev \<in> set (events ?s')"
    from step_event_cases [OF this q] consider
      "ev \<in> set (events s)" | "ev_id ev = eid e" | e' q' where "q = e' # q'" "ev_id ev = eid e'"
      using sid by auto
    then show "ev_id ev < fresh ?s'"
    proof cases
      case 1
      then show ?thesis using log_linkedD1 [OF l] by (simp add: step_fresh)
    next
      case 2
      then show ?thesis using lt by (simp add: step_fresh)
    next
      case 3
      then show ?thesis using above by (simp add: step_fresh)
    qed
  next
    fix m x assume "x \<in> set (queue_of ?s' m)"
    then have "x \<in> set (queue_of s m)" using step_queue_subset by blast
    from log_linkedD2 [OF l this]
    show "Pushed m (eid x) (callback (req x)) \<in> set (events ?s')"
      using step_events_mono by blast
  next
    fix m x m' cb
    assume x: "x \<in> set (queue_of ?s' m)" and p: "Pushed m' (eid x) cb \<in> set (events ?s')"
    have x': "x \<in> set (queue_of s m)" using x step_queue_subset by blast
    have "Pushed m' (eid x) cb \<in> set (events s)"
      using step_event_cases [OF p q] by auto
    from log_linkedD2u [OF l x' this] show "m' = m \<and> cb = callback (req x)" .
  next
    fix m x f
    assume x: "x \<in> set (queue_of ?s' m)"
    have x': "x \<in> set (queue_of s m)" using x step_queue_subset by blast
    show "Called m (eid x) f \<notin> set (events ?s')"
    proof
      assume "Called m (eid x) f \<in> set (events ?s')"
      from step_event_cases [OF this q] consider
        "Called m (eid x) f \<in> set (events s)" | "\<not> ?run" "m = ?n" "eid x = eid e"
        using sid by auto
      then show False
      proof cases
        case 1
        then show ?thesis using log_linkedD2c [OF l x'] by blast
      next
        case 2
        then have "x \<in> set q" using x q by (simp add: step_queue_of)
        then show ?thesis using above 2 by auto
      qed
    qed
  next
    fix m j cb assume p: "Pushed m j cb \<in> set (events ?s')"
    have p': "Pushed m j cb \<in> set (events s)"
      using step_event_cases [OF p q] by auto
    from log_linkedD3 [OF l p'] consider
      "Shifted m j \<in> set (events s)" | "j \<in> eid ` set (queue_of s m)" by blast
    then show "j \<in> eid ` set (queue_of ?s' m) \<or> Shifted m j \<in> set (events ?s')"
    proof cases
      case 1
      then show ?thesis using step_events_mono by blast
    next
      case 2
      show ?thesis
      proof (cases "\<not> ?run \<and> m = ?n")
        case False
        then have "queue_of ?s' m = queue_of s m" by (auto simp: step_queue_of)
        then show ?thesis using 2 by simp
      next
        case True
        then have qs: "queue_of ?s' m = q" using q by (simp add: step_queue_of)
        from 2 True q have "j = eid e \<or> j \<in> eid ` set q" by auto
        then show ?thesis
        proof
          assume "j = eid e"
          then show ?thesis using step_done_events(1) [OF _ q, of now br pnow] True by simp
        next
          assume "j \<in> eid ` set q"
          then show ?thesis using qs by simp
        qed
      qed
    qed
  next
    fix c' assume "c' \<in> set (rest @ step_adds br now pnow s c)"
    then consider "c' \<in> set (c # rest)"
      | e' q' where "\<not> ?run" "q = e' # q'"
          "c' = stepper_of br pnow (styles (written br now s c)) ?n e'"
      using q by (auto simp: step_adds_def split: if_splits list.splits)
    then show "Invoked (s_node c') (s_id c') \<in> set (events ?s')"
    proof cases
      case 1
      from log_linkedD4 [OF l this] show ?thesis using step_events_mono by blast
    next
      case 2
      then show ?thesis using step_done_events(2) [OF 2(1) q 2(2), of br pnow] by simp
    qed
  qed
qed


lemma step_orderly:
  assumes h: "heads_active (c # rest) s" and l: "log_linked (c # rest) s" and o: "queues_ordered s"
    and ord: "orderly (events s)"
  shows "orderly (events (step br now pnow s c))"
proof -
  let ?n = "s_node c"
  let ?t = "progress now (startTime c) (duration (s_req c))"
  let ?l1 = "Stepped ?n (s_id c) ?t # events s"
  have c_in: "c \<in> set (c # rest)" by simp
  from heads_activeD [OF h c_in] obtain e q where
    q: "queue_of s ?n = e # q" and sid: "s_id c = eid e" and rq: "s_req c = req e" by blast
  have e_in: "e \<in> set (queue_of s ?n)" using q by simp
  have above: "\<forall>x\<in>set q. eid e < eid x \<and> eid x < fresh s"
    using queues_orderedD [OF o q] by blast
  have "Invoked ?n (s_id c) \<in> set (events s)" by (rule log_linkedD4 [OF l c_in])
  then have o1: "orderly ?l1" using ord by simp
  show ?thesis
  proof (cases "js_lt ?t (Fin 1)")
    case True
    then have "events (step br now pnow s c) = ?l1" by (simp add: step_events)
    then show ?thesis using o1 by simp
  next
    case False
    define cal where "cal = (case callback (s_req c) of None \<Rightarrow> [] | Some f \<Rightarrow> [Called ?n (s_id c) f])"
    define inv where "inv = (case q of [] \<Rightarrow> [] | e' # _ \<Rightarrow> [Invoked ?n (eid e')])"
    have ev: "events (step br now pnow s c) = inv @ Shifted ?n (eid e) # cal @ ?l1"
      using False q by (simp add: step_events cal_def inv_def)
    have no_call: "Called ?n (s_id c) f \<notin> set ?l1" for f
      using log_linkedD2c [OF l e_in, of f] sid by simp
    have o2: "orderly (cal @ ?l1)"
      using o1 no_call by (cases "callback (s_req c)") (simp_all add: cal_def)
    have a3: "admissible (Shifted ?n (eid e)) (cal @ ?l1)"
    proof -
      have "Called ?n (eid e) f \<in> set (cal @ ?l1)"
        if "Pushed ?n (eid e) (Some f) \<in> set (cal @ ?l1)" for f
      proof -
        have "Pushed ?n (eid e) (Some f) \<in> set (events s)"
          using that by (cases "callback (s_req c)") (auto simp: cal_def)
        from log_linkedD2u [OF l e_in this] have "callback (s_req c) = Some f" using rq by simp
        then show ?thesis using sid by (simp add: cal_def)
      qed
      then show ?thesis by simp
    qed
    have o3: "orderly (Shifted ?n (eid e) # cal @ ?l1)" using a3 o2 by simp
    have sub: "set (events s) \<subseteq> set (Shifted ?n (eid e) # cal @ ?l1)" by auto
    show ?thesis
    proof (cases q)
      case Nil
      then show ?thesis using o3 by (simp add: ev inv_def)
    next
      case (Cons e' q')
      have e'_in: "e' \<in> set (queue_of s ?n)" using q Cons by simp
      have p1: "\<exists>cb. Pushed ?n (eid e') cb \<in> set (Shifted ?n (eid e) # cal @ ?l1)"
        using log_linkedD2 [OF l e'_in] sub by blast
      have p2: "Shifted ?n j \<in> set (Shifted ?n (eid e) # cal @ ?l1)"
        if "j < eid e'" "Pushed ?n j cb \<in> set (Shifted ?n (eid e) # cal @ ?l1)" for j cb
      proof -
        have "Pushed ?n j cb \<in> set (events s)"
          using that(2) by (cases "callback (s_req c)") (auto simp: cal_def)
        from log_linkedD3 [OF l this] consider
          "Shifted ?n j \<in> set (events s)" | "j = eid e" | "j = eid e'" | "j \<in> eid ` set q'"
          using q Cons by auto
        then show ?thesis
        proof cases
          case 1
          then show ?thesis using sub by blast
        next
          case 2
          then show ?thesis by simp
        next
          case 3
          then show ?thesis using that(1) by simp
        next
          case 4
          have "sorted_wrt (<) (map eid (e' # q'))"
            using queues_orderedD(3) [OF o q] Cons by simp
          then have "\<forall>x\<in>set q'. eid e' < eid x" by auto
          then show ?thesis using 4 that(1) by auto
        qed
      qed
      have "admissible (Invoked ?n (eid e')) (Shifted ?n (eid e) # cal @ ?l1)"
        unfolding admissible.simps using p1 p2 by blast
      then show ?thesis using o3 Cons by (simp add: ev inv_def)
    qed
  qed
qed

lemma step_consistent:
  assumes "consistent (c # rest) s"
  shows "consistent (rest @ step_adds br now pnow s c) (step br now pnow s c)"
proof -
  have h: "heads_active (c # rest) s" and q: "queues_ordered s" and l: "log_linked (c # rest) s"
    and ord: "orderly (events s)"
    using assms by (simp_all add: consistent_def)
  show ?thesis
    unfolding consistent_def
    using step_heads [OF h] step_ordered [OF q] step_linked [OF h l q]
      step_orderly [OF h l q ord] by simp
qed

lemma step_frames_adds: "frames (step br now pnow s c) = frames s @ step_adds br now pnow s c"
  by (simp add: step_frames step_adds_def)

lemma animate_el_frames_adds:
  "frames (animate_el br pnow rq s n) = frames s @ animate_el_adds br pnow rq s n"
  by (simp add: animate_el_fields animate_el_adds_def)

lemma consistent_frames_reset: "consistent cs (s\<lparr>frames := fs\<rparr>) = consistent cs s"
  by (simp add: consistent_def heads_active_def queues_ordered_def log_linked_def)

lemma steps_consistent:
  "consistent (cur @ frames s) s \<Longrightarrow>
     consistent (frames (foldl (step br now pnow) s cur)) (foldl (step br now pnow) s cur)"
proof (induction cur arbitrary: s)
  case Nil
  then show ?case by simp
next
  case (Cons c cur)
  have "consistent (c # (cur @ frames s)) s" using Cons.prems by simp
  from step_consistent [OF this, of br now pnow]
  have "consistent (cur @ frames (step br now pnow s c)) (step br now pnow s c)"
    by (simp add: step_frames_adds)
  from Cons.IH [OF this] show ?case by simp
qed

lemma frame_consistent:
  assumes "consistent (frames s) s"
  shows "consistent (frames (frame br now pnow s)) (frame br now pnow s)"
proof -
  have "consistent (frames s @ frames (s\<lparr>frames := []\<rparr>)) (s\<lparr>frames := []\<rparr>)"
    using assms by (simp add: consistent_frames_reset)
  from steps_consistent [OF this] show ?thesis by (simp add: frame_def)
qed

lemma animate_consistent:
  "consistent (frames s) s \<Longrightarrow>
     consistent (frames (animate br pnow sel rq s)) (animate br pnow sel rq s)"
  unfolding animate_def
proof (induction sel arbitrary: s)
  case Nil
  then show ?case by simp
next
  case (Cons n sel)
  from animate_el_consistent [OF Cons.prems, of br pnow rq n]
  have "consistent (frames (animate_el br pnow rq s n)) (animate_el br pnow rq s n)"
    by (simp add: animate_el_frames_adds)
  from Cons.IH [OF this] show ?case by simp
qed

lemma initial_consistent: "consistent (frames (initial st)) (initial st)"
  by (simp add: consistent_def heads_active_def queues_ordered_def log_linked_def initial_def
      queue_of_def)

lemma exec_consistent:
  "consistent (frames s) s \<Longrightarrow> consistent (frames (exec br s a)) (exec br s a)"
  by (cases a) (simp_all add: animate_consistent frame_consistent)

lemma foldl_exec_consistent:
  "consistent (frames s) s \<Longrightarrow>
     consistent (frames (foldl (exec br) s acts)) (foldl (exec br) s acts)"
  by (induction acts arbitrary: s) (simp_all add: exec_consistent)

lemma run_consistent: "consistent (frames (run br st acts)) (run br st acts)"
  unfolding run_def by (rule foldl_exec_consistent [OF initial_consistent])


section \<open>One active entry per node\<close>

lemma at_most_one:
  "distinct (map f xs) \<Longrightarrow> length (filter (\<lambda>x. f x = a) xs) \<le> 1"
proof (induction xs)
  case Nil
  then show ?case by simp
next
  case (Cons x xs)
  show ?case
  proof (cases "f x = a")
    case True
    then have "a \<notin> f ` set xs" using Cons.prems by auto
    then have "filter (\<lambda>x. f x = a) xs = []" by (auto simp: filter_empty_conv)
    then show ?thesis using True by simp
  next
    case False
    then show ?thesis using Cons by simp
  qed
qed

lemma steps_consistent_mid:
  "consistent (cur1 @ cur2 @ frames s) s \<Longrightarrow>
     consistent (cur2 @ frames (foldl (step br now pnow) s cur1)) (foldl (step br now pnow) s cur1)"
proof (induction cur1 arbitrary: s)
  case Nil
  then show ?case by simp
next
  case (Cons c cur)
  have "consistent (c # (cur @ cur2 @ frames s)) s" using Cons.prems by simp
  from step_consistent [OF this, of br now pnow]
  have "consistent (cur @ cur2 @ frames (step br now pnow s c)) (step br now pnow s c)"
    by (simp add: step_frames_adds)
  from Cons.IH [OF this] show ?case by simp
qed

lemma mid_frame_consistent:
  assumes "consistent (frames s) s"
  shows "consistent (waiting s k @ frames (mid_frame br now pnow s k)) (mid_frame br now pnow s k)"
proof -
  have "consistent (take k (frames s) @ drop k (frames s) @ frames (s\<lparr>frames := []\<rparr>)) (s\<lparr>frames := []\<rparr>)"
    using assms by (simp add: consistent_frames_reset)
  from steps_consistent_mid [OF this] show ?thesis by (simp add: mid_frame_def waiting_def)
qed

lemma consistent_heads: "consistent cs s \<Longrightarrow> heads_active cs s"
  by (simp add: consistent_def)

lemma animate_el_independent:
  assumes "m \<noteq> n"
  shows "node_view (animate_el br pnow rq s m) n = node_view s n"
  using assms by (simp add: node_view_def active_def animate_el_fields)

lemma step_adds_node: "c' \<in> set (step_adds br now pnow s c) \<Longrightarrow> s_node c' = s_node c"
  by (auto simp: step_adds_def split: if_splits list.splits)

lemma step_independent:
  assumes "s_node c \<noteq> n"
  shows "node_view (step br now pnow s c) n = node_view s n"
proof -
  have "styles (step br now pnow s c) n p = styles s n p" for p
    using assms by (simp add: step_styles written_styles foldl_write_other)
  then have st: "styles (step br now pnow s c) n = styles s n" by (rule ext)
  have "s_node c' \<noteq> n" if "c' \<in> set (step_adds br now pnow s c)" for c'
    using step_adds_node [OF that] assms by simp
  then have "filter (\<lambda>c. s_node c = n) (step_adds br now pnow s c) = []"
    by (simp add: filter_empty_conv)
  then have ac: "active (step br now pnow s c) n = active s n"
    by (simp add: active_def step_frames_adds)
  have "queue_of (step br now pnow s c) n = queue_of s n"
    using assms by (auto simp: step_queue_of)
  then show ?thesis using st ac by (simp add: node_view_def)
qed

text \<open>
  C2. In every state reached by \<open>animate\<close> calls and animation frames, a node has at most
  one active entry, and it is the head of the node's queue; the same holds in the middle
  of a frame, counting the callbacks of the frame that have not run yet. An \<open>animate\<close>
  call on another node and a step of another node's entry leave a node's style, queue and
  active entry as they are.
\<close>

theorem one_active_per_node:
  "length (active (run br st acts) n) \<le> 1
   \<and> (\<forall>c\<in>set (active (run br st acts) n).
         \<exists>e q. queue_of (run br st acts) n = e # q \<and> s_id c = eid e)
   \<and> (\<forall>now pnow k. length (filter (\<lambda>c. s_node c = n)
         (waiting (run br st acts) k @ frames (mid_frame br now pnow (run br st acts) k))) \<le> 1)
   \<and> (\<forall>pnow rq s m. m \<noteq> n \<longrightarrow> node_view (animate_el br pnow rq s m) n = node_view s n)
   \<and> (\<forall>now pnow s c. s_node c \<noteq> n \<longrightarrow> node_view (step br now pnow s c) n = node_view s n)"
proof -
  let ?s = "run br st acts"
  have h: "heads_active (frames ?s) ?s" by (rule consistent_heads [OF run_consistent])
  have 1: "length (active ?s n) \<le> 1"
    unfolding active_def by (rule at_most_one [OF heads_active_distinct [OF h]])
  have 2: "\<exists>e q. queue_of ?s n = e # q \<and> s_id c = eid e" if "c \<in> set (active ?s n)" for c
  proof -
    have "c \<in> set (frames ?s)" and n: "s_node c = n" using that by (simp_all add: active_def)
    from heads_activeD [OF h this(1)] obtain e q where
      "queue_of ?s (s_node c) = e # q" "s_id c = eid e" by blast
    then show ?thesis using n by auto
  qed
  have 3: "length (filter (\<lambda>c. s_node c = n) (waiting ?s k @ frames (mid_frame br now pnow ?s k))) \<le> 1"
    for now pnow k
    by (rule at_most_one [OF heads_active_distinct [OF consistent_heads
          [OF mid_frame_consistent [OF run_consistent]]]])
  show ?thesis
  proof (intro conjI ballI allI impI)
    show "length (active ?s n) \<le> 1" by (rule 1)
  next
    fix c assume "c \<in> set (active ?s n)"
    then show "\<exists>e q. queue_of ?s n = e # q \<and> s_id c = eid e" by (rule 2)
  next
    fix now pnow k
    show "length (filter (\<lambda>c. s_node c = n) (waiting ?s k @ frames (mid_frame br now pnow ?s k))) \<le> 1"
      by (rule 3)
  next
    fix pnow rq s m assume "m \<noteq> n"
    then show "node_view (animate_el br pnow rq s m) n = node_view s n"
      by (rule animate_el_independent)
  next
    fix now pnow s and c :: stepper assume "s_node c \<noteq> n"
    then show "node_view (step br now pnow s c) n = node_view s n"
      by (rule step_independent)
  qed
qed

section \<open>First in, first out\<close>

text \<open>
  C1. The history is read newest event first. If a step of a closure \<open>k2\<close> of node \<open>n\<close> is
  evaluated, and a closure \<open>k1\<close> was pushed on \<open>n\<close> before \<open>k2\<close> was, then before that step
  \<open>k1\<close> has left the queue and, if it was pushed with a callback, the callback has been
  called, and in the whole history it is called exactly once; and \<open>k2\<close> is invoked only after
  \<open>k1\<close> has left the queue.
\<close>

theorem queue_order:
  assumes "events (run br st acts) = post @ Stepped n k2 t # pre"
    and "events (run br st acts) = a @ Pushed n k2 cb2 # b"
    and "Pushed n k1 cb1 \<in> set b"
  shows "Shifted n k1 \<in> set pre
       \<and> (\<forall>f. cb1 = Some f \<longrightarrow>
            Called n k1 f \<in> set pre \<and> count_list (events (run br st acts)) (Called n k1 f) = 1)
       \<and> (\<forall>x y. events (run br st acts) = x @ Invoked n k2 # y \<longrightarrow> Shifted n k1 \<in> set y)"
proof -
  have "orderly (events (run br st acts))"
    using run_consistent [of br st acts] by (simp add: consistent_def)
  from fifo_in_orderly_history [OF this assms] show ?thesis .
qed

section \<open>What a step writes\<close>

text \<open>
  C10. A step of an active entry changes the style of no other node and, on its own node,
  of no property that its request does not name.
\<close>

theorem step_writes_requested_only:
  assumes "c \<in> set (frames (run br st acts))"
    and "m \<noteq> s_node c \<or> p \<notin> fst ` set (properties (s_req c))"
  shows "styles (step br now pnow s c) m p = styles s m p"
proof -
  have h: "heads_active (frames (run br st acts)) (run br st acts)"
    by (rule consistent_heads [OF run_consistent])
  from heads_activeD [OF h assms(1)] obtain e q where
    "queue_of (run br st acts) (s_node c) = e # q" and "s_id c = eid e"
    and r: "s_req c = req e" and k: "map fst (plans c) = map fst (properties (req e))" .
  have eq: "map fst (plans c) = map fst (properties (s_req c))"
    unfolding r by (rule k)
  have "set (map fst (plans c)) = set (map fst (properties (s_req c)))"
    by (simp only: eq)
  then have keys: "fst ` set (plans c) = fst ` set (properties (s_req c))"
    by (simp only: set_map)
  have d: "m \<noteq> s_node c \<or> p \<notin> fst ` set (plans c)"
    using assms(2) unfolding keys by assumption
  show ?thesis
    unfolding step_styles written_styles by (rule foldl_write_other [OF d])
qed


section \<open>The theorems on the demonstration run\<close>

lemma demo_history:
  "events (run demo_browser demo_styles demo_acts) =
     [Stepped 0 1 (Fin (1 / 4)), Invoked 0 1, Shifted 0 0, Called 0 0 7, Stepped 0 0 (Fin 1),
      Pushed 0 1 (Some 7), Invoked 0 0, Pushed 0 0 (Some 7)]"
  by code_simp

theorem queue_order_witness:
  "events (run demo_browser demo_styles demo_acts)
     = [] @ Stepped 0 1 (Fin (1 / 4))
          # [Invoked 0 1, Shifted 0 0, Called 0 0 7, Stepped 0 0 (Fin 1), Pushed 0 1 (Some 7),
             Invoked 0 0, Pushed 0 0 (Some 7)]
   \<and> events (run demo_browser demo_styles demo_acts)
     = [Stepped 0 1 (Fin (1 / 4)), Invoked 0 1, Shifted 0 0, Called 0 0 7, Stepped 0 0 (Fin 1)]
       @ Pushed 0 1 (Some 7) # [Invoked 0 0, Pushed 0 0 (Some 7)]
   \<and> Pushed 0 0 (Some 7) \<in> set [Invoked 0 0, Pushed 0 0 (Some 7)]
   \<and> Shifted 0 0 \<in> set [Invoked 0 1, Shifted 0 0, Called 0 0 7, Stepped 0 0 (Fin 1),
                          Pushed 0 1 (Some 7), Invoked 0 0, Pushed 0 0 (Some 7)]
   \<and> count_list (events (run demo_browser demo_styles demo_acts)) (Called 0 0 7) = 1"
proof -
  have h1: "events (run demo_browser demo_styles demo_acts)
     = [] @ Stepped 0 1 (Fin (1 / 4))
          # [Invoked 0 1, Shifted 0 0, Called 0 0 7, Stepped 0 0 (Fin 1), Pushed 0 1 (Some 7),
             Invoked 0 0, Pushed 0 0 (Some 7)]"
    by (simp add: demo_history)
  have h2: "events (run demo_browser demo_styles demo_acts)
     = [Stepped 0 1 (Fin (1 / 4)), Invoked 0 1, Shifted 0 0, Called 0 0 7, Stepped 0 0 (Fin 1)]
       @ Pushed 0 1 (Some 7) # [Invoked 0 0, Pushed 0 0 (Some 7)]"
    by (simp add: demo_history)
  have h3: "Pushed 0 0 (Some 7) \<in> set [Invoked 0 0, Pushed 0 0 (Some 7)]"
    by simp
  from queue_order [OF h1 h2 h3] h1 h2 h3 show ?thesis by blast
qed

lemma demo_final:
  "map s_id (active (run demo_browser demo_styles demo_acts) 0) = [1]"
  "map eid (queue_of (run demo_browser demo_styles demo_acts) 0) = [1]"
  by code_simp+

theorem one_active_per_node_witness:
  "length (active (run demo_browser demo_styles demo_acts) 0) \<le> 1
   \<and> map s_id (active (run demo_browser demo_styles demo_acts) 0) = [1]
   \<and> map eid (queue_of (run demo_browser demo_styles demo_acts) 0) = [1]
   \<and> node_view (animate_el demo_browser 0 demo_request demo_started 1) 0 = node_view demo_started 0
   \<and> node_view (step demo_browser 16 16 demo_started other_stepper) 0 = node_view demo_started 0"
proof -
  have n: "s_node other_stepper \<noteq> 0" by (simp add: other_stepper_def)
  have m: "(1::nat) \<noteq> 0" by simp
  from one_active_per_node [of demo_browser demo_styles demo_acts 0] n m demo_final
  show ?thesis by blast
qed

lemma demo_run_started: "run demo_browser demo_styles [Animate 0 [0] demo_request] = demo_started"
  by (simp add: run_def animate_def demo_started_def)

theorem step_writes_requested_only_witness:
  "demo_stepper \<in> set (frames (run demo_browser demo_styles [Animate 0 [0] demo_request]))
   \<and> ''top'' \<notin> fst ` set (properties (s_req demo_stepper))
   \<and> styles (step demo_browser 200 200 demo_started demo_stepper) 0 ''top'' = styles demo_started 0 ''top''
   \<and> styles (step demo_browser 200 200 demo_started demo_stepper) 1 ''left'' = styles demo_started 1 ''left''"
proof -
  have h1: "demo_stepper \<in> set (frames (run demo_browser demo_styles [Animate 0 [0] demo_request]))"
    by (simp add: demo_run_started demo_started_fields)
  have h2: "''top'' \<notin> fst ` set (properties (s_req demo_stepper))"
    by (simp add: demo_stepper_fields demo_request_def)
  have h3: "(1::nat) \<noteq> s_node demo_stepper" by (simp add: demo_stepper_fields)
  from step_writes_requested_only [OF h1 disjI2 [OF h2]] step_writes_requested_only [OF h1 disjI1 [OF h3]]
    h1 h2
  show ?thesis by simp
qed


section \<open>The OKLCH pipeline\<close>

lemma many1_run_hd:
  assumes "r \<noteq> []" "list_all P r" "rest = [] \<or> \<not> P (hd rest)"
  shows "many1 P (r @ rest) = Some (r, rest)"
proof (cases rest)
  case Nil
  have "takeWhile P r = r" "dropWhile P r = []" using assms(2) by (simp_all add: list_all_iff)
  then show ?thesis unfolding many1_def using Nil assms(1) by (cases r) simp_all
next
  case (Cons c cs)
  then have "\<not> P c" using assms(3) by simp
  from many1_run [OF assms(1,2) this] show ?thesis using Cons by simp
qed

lemma decimal_capture_text:
  assumes "ip \<noteq> []" "list_all is_digit ip" "fp \<noteq> []" "list_all is_digit fp"
    and "rest = [] \<or> \<not> is_digit (hd rest)"
  shows "decimal_capture (decimal_text ip fp @ rest) = Some (decimal_text ip fp, rest)"
proof -
  have dot: "\<not> is_digit CHR ''.''" by (simp add: is_digit_def)
  have 1: "many1 is_digit (ip @ CHR ''.'' # fp @ rest) = Some (ip, CHR ''.'' # fp @ rest)"
    by (rule many1_run [OF assms(1,2) dot])
  have 2: "many1 is_digit (fp @ rest) = Some (fp, rest)"
    by (rule many1_run_hd [OF assms(3,4,5)])
  have 3: "lit ''.'' (CHR ''.'' # fp @ rest) = Some (fp @ rest)" by (simp add: lit_def)
  show ?thesis by (simp add: decimal_capture_def decimal_text_def 1 2 3)
qed

lemma decimal_text_hd:
  assumes "ip \<noteq> []" "list_all is_digit ip"
  shows "is_digit (hd (decimal_text ip fp @ rest))"
  using assms by (cases ip) (simp_all add: decimal_text_def)

lemma space_run:
  assumes "is_digit (hd s)" "s \<noteq> []"
  shows "many1 is_space (CHR '' '' # s) = Some ('' '', s)"
proof -
  have "\<not> is_space (hd s)" using assms(1) by (rule digit_not_space)
  then have "many1 is_space ('' '' @ s) = Some ('' '', s)"
    by (intro many1_run_hd) (simp_all add: is_space_def)
  then show ?thesis by simp
qed

lemma match_oklch_text:
  assumes "l1 \<noteq> []" "list_all is_digit l1" "l2 \<noteq> []" "list_all is_digit l2"
    and "c1 \<noteq> []" "list_all is_digit c1" "c2 \<noteq> []" "list_all is_digit c2"
    and "h1 \<noteq> []" "list_all is_digit h1" "h2 \<noteq> []" "list_all is_digit h2"
  shows "match_oklch (oklch_text (decimal_text l1 l2) (decimal_text c1 c2) (decimal_text h1 h2))
         = Some (decimal_text l1 l2, decimal_text c1 c2, decimal_text h1 h2)"
proof -
  let ?L = "decimal_text l1 l2" and ?C = "decimal_text c1 c2" and ?H = "decimal_text h1 h2"
  have sp: "\<not> is_digit (hd (CHR '' '' # s))" and par: "\<not> is_digit (hd '')'')" for s
    by (simp_all add: is_digit_def)
  have 0: "lit ''oklch('' (oklch_text ?L ?C ?H) = Some (?L @ CHR '' '' # (?C @ CHR '' '' # (?H @ '')'')))"
    by (simp add: lit_def oklch_text_def)
  have 1: "decimal_capture (?L @ CHR '' '' # (?C @ CHR '' '' # (?H @ '')'')))
           = Some (?L, CHR '' '' # (?C @ CHR '' '' # (?H @ '')'')))"
    by (rule decimal_capture_text [OF assms(1-4)]) (simp add: is_digit_def)
  have 2: "many1 is_space (CHR '' '' # (?C @ CHR '' '' # (?H @ '')'')))
           = Some ('' '', ?C @ CHR '' '' # (?H @ '')''))"
    by (rule space_run [OF decimal_text_hd [OF assms(5,6)]]) (simp add: decimal_text_def)
  have 3: "decimal_capture (?C @ CHR '' '' # (?H @ '')''))
           = Some (?C, CHR '' '' # (?H @ '')''))"
    by (rule decimal_capture_text [OF assms(5-8)]) (simp add: is_digit_def)
  have 4: "many1 is_space (CHR '' '' # (?H @ '')'')) = Some ('' '', ?H @ '')'')"
    by (rule space_run [OF decimal_text_hd [OF assms(9,10)]]) (simp add: decimal_text_def)
  have 5: "decimal_capture (?H @ '')'') = Some (?H, '')'')"
    by (rule decimal_capture_text [OF assms(9-12)]) (simp add: is_digit_def)
  have 6: "lit '')'' '')'' = Some []" by (simp add: lit_def)
  show ?thesis
    unfolding match_oklch_def 0
    by (simp add: 1 2 3 4 5 6 at_end_def)
qed

lemma oklch_text_not_others:
  "match_rgb (oklch_text l c h) = None" "match_rgba (oklch_text l c h) = None"
  "match_hex (oklch_text l c h) = None"
  by (simp_all add: match_rgb_def match_rgba_def match_hex_def oklch_text_def lit_def)

lemma length_multiplyMatrices [simp]: "length (multiplyMatrices A B) = 3"
  by (simp add: multiplyMatrices_def)

lemma length_oklch2rgb [simp]: "length (oklch2rgb lch) = 3"
  by (simp add: oklch2rgb_def srgbLinear2rgb_def xyz2rgbLinear_def Let_def)

lemma three_elements: "length xs = 3 \<Longrightarrow> [xs ! 0, xs ! 1, xs ! 2] = xs"
  by (cases xs; cases "tl xs"; cases "tl (tl xs)") auto

lemma gamma_encode_Fin:
  "gamma_encode (Fin x) =
     Fin (if \<bar>x\<bar> \<le> 0.0031308 then 12.92 * x
          else (if x < 0 then - 1 else 1) * (1.055 * (\<bar>x\<bar> powr (1 / 2.4)) - 0.055))"
  by (simp add: gamma_encode_def js_sub_def)

lemma oklch2oklab_Fin:
  "oklch2oklab (Fin l, Fin c, Fin h) = [Fin l, Fin (c * cos (h * pi / 180)), Fin (c * sin (h * pi / 180))]"
  by (simp add: oklch2oklab_def)

lemma oklch2oklab_NaN: "oklch2oklab (l, c, NaN) = [l, Fin 0, Fin 0]"
  by (simp add: oklch2oklab_def)


lemma parseFloat_decimal_text:
  assumes "ip \<noteq> []" "list_all is_digit ip" "fp \<noteq> []" "list_all is_digit fp"
  shows "parseFloat (decimal_text ip fp) = Fin (decimal ip + decimal fp / 10 ^ length fp)"
proof -
  obtain x xs where ip: "ip = x # xs" using assms(1) by (cases ip) auto
  then have "is_digit x" using assms(2) by simp
  then have "x \<noteq> CHR ''-''" by (auto simp: is_digit_def)
  then have m: "opt_minus (decimal_text ip fp) = decimal_text ip fp"
    by (simp add: opt_minus_def decimal_text_def ip)
  have dot: "\<not> is_digit CHR ''.''" by (simp add: is_digit_def)
  have "\<forall>c\<in>set ip. is_digit c" using assms(2) by (simp add: list_all_iff)
  then have t: "takeWhile is_digit (ip @ CHR ''.'' # fp) = ip"
    and d: "dropWhile is_digit (ip @ CHR ''.'' # fp) = CHR ''.'' # fp"
    using dot by (simp_all add: takeWhile_append2 dropWhile_append2)
  have f: "takeWhile is_digit fp = fp" using assms(4) by (simp add: list_all_iff)
  have l: "lit ''.'' (CHR ''.'' # fp) = Some fp" by (simp add: lit_def)
  have dt: "decimal_text ip fp = ip @ CHR ''.'' # fp" by (simp add: decimal_text_def)
  show ?thesis
    unfolding parseFloat_def m Let_def unfolding dt t d l using assms(1) by (simp add: f)
qed

text \<open>
  C7, as amended. For an input \<open>oklch(L C H)\<close>, each number written as digits, a dot and
  digits, that the surface reads back unchanged, the resolver of this revision returns the
  array of the three channels computed by the pipeline: OKLCH to OKLAB (\<open>L\<close> unchanged,
  \<open>a = C cos(H pi / 180)\<close>, \<open>b = C sin(H pi / 180)\<close>, and \<open>a = b = 0\<close> for a hue that is NaN),
  the first matrix, the cube of each component, the second and the third matrix, and the
  gamma encoding of each channel. The array has no alpha component, and nothing is said of
  the range of the channels.
\<close>

theorem parseColor_rgb_oklch:
  assumes "has2d cv"
    and "fillStyle cv (oklch_text (decimal_text l1 l2) (decimal_text c1 c2) (decimal_text h1 h2))
         = oklch_text (decimal_text l1 l2) (decimal_text c1 c2) (decimal_text h1 h2)"
    and "l1 \<noteq> []" "list_all is_digit l1" "l2 \<noteq> []" "list_all is_digit l2"
    and "c1 \<noteq> []" "list_all is_digit c1" "c2 \<noteq> []" "list_all is_digit c2"
    and "h1 \<noteq> []" "list_all is_digit h1" "h2 \<noteq> []" "list_all is_digit h2"
  shows "parseColor_rgb cv (oklch_text (decimal_text l1 l2) (decimal_text c1 c2) (decimal_text h1 h2))
       = Some (srgbLinear2rgb (multiplyMatrices rgb_matrix (multiplyMatrices xyz_matrix
           (map js_cube (multiplyMatrices lms_matrix
             (oklch2oklab (Fin (decimal l1 + decimal l2 / 10 ^ length l2),
                           Fin (decimal c1 + decimal c2 / 10 ^ length c2),
                           Fin (decimal h1 + decimal h2 / 10 ^ length h2))))))))
     \<and> (\<forall>l c h. oklch2oklab (Fin l, Fin c, Fin h)
           = [Fin l, Fin (c * cos (h * pi / 180)), Fin (c * sin (h * pi / 180))])
     \<and> (\<forall>l c. oklch2oklab (l, c, NaN) = [l, Fin 0, Fin 0])
     \<and> (\<forall>xs. srgbLinear2rgb xs = map gamma_encode xs)
     \<and> (\<forall>x. gamma_encode (Fin x) =
           Fin (if \<bar>x\<bar> \<le> 0.0031308 then 12.92 * x
                else (if x < 0 then - 1 else 1) * (1.055 * (\<bar>x\<bar> powr (1 / 2.4)) - 0.055)))"
proof -
  let ?t = "oklch_text (decimal_text l1 l2) (decimal_text c1 c2) (decimal_text h1 h2)"
  let ?lch = "(parseFloat (decimal_text l1 l2), parseFloat (decimal_text c1 c2),
               parseFloat (decimal_text h1 h2))"
  have m: "match_oklch ?t = Some (decimal_text l1 l2, decimal_text c1 c2, decimal_text h1 h2)"
    by (rule match_oklch_text [OF assms(3-14)])
  have "parseColor_rgb cv ?t = Some [oklch2rgb ?lch ! 0, oklch2rgb ?lch ! 1, oklch2rgb ?lch ! 2]"
    using assms(1,2) by (simp add: parseColor_rgb_def oklch_text_not_others m Let_def)
  also have "\<dots> = Some (oklch2rgb ?lch)"
    by (simp only: three_elements [OF length_oklch2rgb])
  finally have "parseColor_rgb cv ?t = Some (oklch2rgb ?lch)" .
  then have 1: "parseColor_rgb cv ?t
       = Some (srgbLinear2rgb (multiplyMatrices rgb_matrix (multiplyMatrices xyz_matrix
           (map js_cube (multiplyMatrices lms_matrix
             (oklch2oklab (Fin (decimal l1 + decimal l2 / 10 ^ length l2),
                           Fin (decimal c1 + decimal c2 / 10 ^ length c2),
                           Fin (decimal h1 + decimal h2 / 10 ^ length h2))))))))"
    by (simp add: oklch2rgb_def xyz2rgbLinear_def oklab2xyz_def Let_def
        parseFloat_decimal_text [OF assms(3-6)] parseFloat_decimal_text [OF assms(7-10)]
        parseFloat_decimal_text [OF assms(11-14)])
  show ?thesis
    using 1 oklch2oklab_Fin oklch2oklab_NaN gamma_encode_Fin
    by (simp add: srgbLinear2rgb_def)
qed

lemma powr_ge_self:
  assumes "0 < x" "x \<le> 1" "a \<le> 1"
  shows "x \<le> x powr (a::real)"
proof -
  have "x powr 1 \<le> x powr a" using assms by (intro powr_mono') simp_all
  then show ?thesis using assms(1) by simp
qed

lemma gamma_encode_negative:
  assumes "- 1 < g" "g < - (1 / 10)"
  shows "\<exists>y. gamma_encode (Fin g) = Fin y \<and> y < 0"
proof -
  have "\<bar>g\<bar> \<le> \<bar>g\<bar> powr (1 / 2.4)" using assms by (intro powr_ge_self) simp_all
  then have "1 / 10 < \<bar>g\<bar> powr (1 / 2.4)" using assms by simp
  then have "0 < 1.055 * (\<bar>g\<bar> powr (1 / 2.4)) - 0.055" by simp
  then show ?thesis using assms by (simp add: gamma_encode_Fin)
qed

lemma demo_oklab: "oklch2oklab (Fin (1 / 2), Fin (1 / 2), Fin 0) = [Fin (1 / 2), Fin (1 / 2), Fin 0]"
  by (simp add: oklch2oklab_def)

lemma demo_linear_green:
  "case multiplyMatrices rgb_matrix (multiplyMatrices xyz_matrix
          (map js_cube (multiplyMatrices lms_matrix [Fin (1 / 2), Fin (1 / 2), Fin 0]))) ! 1 of
     Fin g \<Rightarrow> - 1 < g \<and> g < - (1 / 10)
   | _ \<Rightarrow> False"
  by (simp add: multiplyMatrices_def lms_matrix_def xyz_matrix_def rgb_matrix_def js_cube_def)

lemma demo_green_negative:
  "\<exists>y. oklch2rgb (Fin (1 / 2), Fin (1 / 2), Fin 0) ! 1 = Fin y \<and> y < 0"
proof -
  let ?lin = "multiplyMatrices rgb_matrix (multiplyMatrices xyz_matrix
          (map js_cube (multiplyMatrices lms_matrix [Fin (1 / 2), Fin (1 / 2), Fin 0])))"
  obtain g where g: "?lin ! 1 = Fin g" "- 1 < g" "g < - (1 / 10)"
    using demo_linear_green by (cases "?lin ! 1") simp_all
  have "oklch2rgb (Fin (1 / 2), Fin (1 / 2), Fin 0) ! 1 = gamma_encode (?lin ! 1)"
    by (simp add: oklch2rgb_def srgbLinear2rgb_def xyz2rgbLinear_def oklab2xyz_def Let_def
        demo_oklab)
  then show ?thesis using gamma_encode_negative [OF g(2,3)] g(1) by simp
qed

lemma demo_oklch_parse:
  "match_oklch ''oklch(0.5 0.5 0.0)'' = Some (''0.5'', ''0.5'', ''0.0'')"
  "parseFloat ''0.5'' = Fin (1 / 2)" "parseFloat ''0.0'' = Fin 0"
  "match_rgb ''oklch(0.5 0.5 0.0)'' = None" "match_rgba ''oklch(0.5 0.5 0.0)'' = None"
  "match_hex ''oklch(0.5 0.5 0.0)'' = None"
  by code_simp+

text \<open>
  C7 as stated promises channels in \<open>[0, 255]\<close> and alpha 1. For \<open>oklch(0.5 0.5 0.0)\<close> the
  result has three components and the green one is negative.
\<close>

theorem parseColor_rgb_oklch_counterexample:
  "parseColor_rgb echo_canvas ''oklch(0.5 0.5 0.0)'' \<noteq> None
   \<and> length (the (parseColor_rgb echo_canvas ''oklch(0.5 0.5 0.0)'')) = 3
   \<and> js_lt (the (parseColor_rgb echo_canvas ''oklch(0.5 0.5 0.0)'') ! 1) (Fin 0)"
proof -
  obtain y where y: "oklch2rgb (Fin (1 / 2), Fin (1 / 2), Fin 0) ! 1 = Fin y" "y < 0"
    using demo_green_negative by blast
  have "parseColor_rgb echo_canvas ''oklch(0.5 0.5 0.0)''
        = Some [oklch2rgb (Fin (1 / 2), Fin (1 / 2), Fin 0) ! 0, Fin y,
                oklch2rgb (Fin (1 / 2), Fin (1 / 2), Fin 0) ! 2]"
    by (simp add: parseColor_rgb_def echo_canvas_def demo_oklch_parse Let_def
        y(1) [unfolded One_nat_def])
  then show ?thesis using y(2) by simp
qed

theorem parseColor_rgb_oklch_witness:
  "has2d echo_canvas
   \<and> fillStyle echo_canvas (oklch_text (decimal_text ''0'' ''5'') (decimal_text ''0'' ''5'') (decimal_text ''0'' ''0''))
       = oklch_text (decimal_text ''0'' ''5'') (decimal_text ''0'' ''5'') (decimal_text ''0'' ''0'')
   \<and> oklch_text (decimal_text ''0'' ''5'') (decimal_text ''0'' ''5'') (decimal_text ''0'' ''0'')
       = ''oklch(0.5 0.5 0.0)''
   \<and> parseColor_rgb echo_canvas ''oklch(0.5 0.5 0.0)''
       = Some (srgbLinear2rgb (multiplyMatrices rgb_matrix (multiplyMatrices xyz_matrix
           (map js_cube (multiplyMatrices lms_matrix [Fin (1 / 2), Fin (1 / 2), Fin 0])))))"
proof -
  have h1: "has2d echo_canvas" by (simp add: echo_canvas_def)
  have h2: "fillStyle echo_canvas (oklch_text (decimal_text ''0'' ''5'') (decimal_text ''0'' ''5'') (decimal_text ''0'' ''0''))
       = oklch_text (decimal_text ''0'' ''5'') (decimal_text ''0'' ''5'') (decimal_text ''0'' ''0'')"
    by (simp add: echo_canvas_def)
  have d: "list_all is_digit ''0''" "list_all is_digit ''5''" "''0'' \<noteq> []" "''5'' \<noteq> []"
    by (simp_all add: is_digit_def)
  have t: "oklch_text (decimal_text ''0'' ''5'') (decimal_text ''0'' ''5'') (decimal_text ''0'' ''0'')
       = ''oklch(0.5 0.5 0.0)''"
    by (simp add: oklch_text_def decimal_text_def)
  have v: "decimal ''0'' = 0" "decimal ''5'' = 5"
    by (simp_all add: decimal_def radix_val_def digit_val_def)
  from parseColor_rgb_oklch [OF h1 h2 d(3) d(1) d(4) d(2) d(3) d(1) d(4) d(2) d(3) d(1) d(3) d(1)]
  have "parseColor_rgb echo_canvas ''oklch(0.5 0.5 0.0)''
       = Some (srgbLinear2rgb (multiplyMatrices rgb_matrix (multiplyMatrices xyz_matrix
           (map js_cube (multiplyMatrices lms_matrix [Fin (1 / 2), Fin (1 / 2), Fin 0])))))"
    unfolding t v by (simp add: demo_oklab)
  then show ?thesis using h1 h2 t by simp
qed


end
